theory Spec2Isabelle
  imports Main "HOL-Library.AList"
begin

section \<open>Data model of \<open>rez/suite.py\<close>\<close>

text \<open>
  A suite is a collection of named contexts. Each context is stored as a Python dict
  with the keys \<open>name\<close>, \<open>context\<close>, \<open>tool_aliases\<close>, \<open>hidden_tools\<close>,
  \<open>description\<close>, \<open>priority\<close> and, once they have been set, \<open>prefix\<close> and
  \<open>suffix\<close>. A key that may be missing is an \<open>option\<close> field here.

  The class \<open>ResolvedContext\<close>, the variants and the YAML and file primitives belong to
  other modules. Of a resolved context the suite uses \<open>context.success\<close> and
  \<open>context.get_tools(request_only=True).itervalues()\<close>, a sequence of pairs
  \<open>(variant, tool_names)\<close>; the second is the field \<open>context_tools\<close>. A variant is
  only passed along, so it is a plain name.
\<close>

type_synonym variant = string

record resolved_context =
  success :: bool
  context_tools :: "(variant \<times> string list) list"

record context_entry =
  name :: string
  "context" :: "resolved_context option"
  tool_aliases :: "string \<rightharpoonup> string"
  hidden_tools :: "string set"
  description :: "string option"
  priority :: int
  prefix :: "string option"
  suffix :: "string option"

text \<open>The dict built for each exposed tool in \<open>_update_tools\<close>.\<close>

record resolved_tool =
  tool_name :: string
  tool_alias :: string
  context_name :: string
  variant :: variant

text \<open>
  \<open>self.tools\<close> and \<open>self.tool_conflicts\<close> are dicts keyed by alias. \<open>save\<close> iterates
  over the first, so both are association lists, read with \<open>map_of\<close>.
\<close>

type_synonym tool_table = "(string \<times> resolved_tool) list"

type_synonym conflict_table = "(string \<times> resolved_tool list) list"

text \<open>
  \<open>self.contexts\<close> is a dict whose values are sorted with a stable sort, so its
  iteration order can be observed when two priorities are equal. It is an association
  list here: the list order stands for the dict's iteration order, whichever it is, and
  the keys of a dict are distinct.
\<close>

record suite =
  load_path :: "string option"
  contexts :: "(string \<times> context_entry) list"
  next_priority :: int
  tools :: "tool_table option"
  tool_conflicts :: "conflict_table option"

text \<open>
  Exceptions. \<open>SuiteError fmt arg\<close> is \<open>SuiteError(fmt % arg)\<close>: the message is kept as
  its format string and its argument.
\<close>

datatype error =
    SuiteError string string
  | IOError string
  | OSError string
  | ResolvedContextError string
  | AssertionError
  | ValueError
  | KeyError string
  | AttributeError
  | SystemExit int

text \<open>\<open>Suite.__init__\<close>\<close>

definition Suite_init :: suite where
  "Suite_init = \<lparr>load_path = None, contexts = [], next_priority = 1,
                  tools = None, tool_conflicts = None\<rparr>"

section \<open>Private helpers\<close>

text \<open>
  The methods whose Python names start with an underscore carry the prefix \<open>u_\<close>.
  Every method takes the suite and returns it, changed or not, next to its result or
  the exception it raised.
\<close>

definition u_context :: "string \<Rightarrow> suite \<Rightarrow> error + context_entry" where
  "u_context n s =
     (case map_of (contexts s) n of
        None \<Rightarrow> Inl (SuiteError ''No such context: %r'' n)
      | Some d \<Rightarrow> Inr d)"

definition u_sorted_contexts :: "suite \<Rightarrow> context_entry list" where
  "u_sorted_contexts s = sort_key priority (map snd (contexts s))"

definition u_next_priority :: "suite \<Rightarrow> int \<times> suite" where
  "u_next_priority s = (next_priority s, s\<lparr>next_priority := next_priority s + 1\<rparr>)"

definition u_flush_tools :: "suite \<Rightarrow> suite" where
  "u_flush_tools s = s\<lparr>tools := None, tool_conflicts := None\<rparr>"

text \<open>\<open>data[key] = value\<close> on the dict returned by \<open>self._context(n)\<close>.\<close>

definition set_data :: "string \<Rightarrow> context_entry \<Rightarrow> suite \<Rightarrow> suite" where
  "set_data n d s = s\<lparr>contexts := AList.update n d (contexts s)\<rparr>"

section \<open>Registry operations\<close>

definition add_context ::
  "string \<Rightarrow> resolved_context \<Rightarrow> string option \<Rightarrow> suite \<Rightarrow> (error + unit) \<times> suite" where
  "add_context n c descr s =
     (if map_of (contexts s) n \<noteq> None then
        (Inl (SuiteError ''Context already in suite: %r'' n), s)
      else if \<not> success c then
        (Inl (SuiteError ''Context is not resolved: %r'' n), s)
      else
        (case u_next_priority s of (p, s1) \<Rightarrow>
           (Inr (), u_flush_tools
              (set_data n \<lparr>name = n, context = Some c, tool_aliases = Map.empty,
                           hidden_tools = {}, description = descr, priority = p,
                           prefix = None, suffix = None\<rparr> s1))))"

definition remove_context :: "string \<Rightarrow> suite \<Rightarrow> (error + unit) \<times> suite" where
  "remove_context n s =
     (case u_context n s of
        Inl e \<Rightarrow> (Inl e, s)
      | Inr _ \<Rightarrow> (Inr (), u_flush_tools (s\<lparr>contexts := AList.delete n (contexts s)\<rparr>)))"

definition set_context_prefix :: "string \<Rightarrow> string \<Rightarrow> suite \<Rightarrow> (error + unit) \<times> suite" where
  "set_context_prefix n p s =
     (case u_context n s of
        Inl e \<Rightarrow> (Inl e, s)
      | Inr d \<Rightarrow>
          (case u_next_priority s of (q, s1) \<Rightarrow>
             (Inr (), u_flush_tools (set_data n (d\<lparr>prefix := Some p, priority := q\<rparr>) s1))))"

definition set_context_suffix :: "string \<Rightarrow> string \<Rightarrow> suite \<Rightarrow> (error + unit) \<times> suite" where
  "set_context_suffix n p s =
     (case u_context n s of
        Inl e \<Rightarrow> (Inl e, s)
      | Inr d \<Rightarrow>
          (case u_next_priority s of (q, s1) \<Rightarrow>
             (Inr (), u_flush_tools (set_data n (d\<lparr>suffix := Some p, priority := q\<rparr>) s1))))"

definition bump_context :: "string \<Rightarrow> suite \<Rightarrow> (error + unit) \<times> suite" where
  "bump_context n s =
     (case u_context n s of
        Inl e \<Rightarrow> (Inl e, s)
      | Inr d \<Rightarrow>
          (case u_next_priority s of (q, s1) \<Rightarrow>
             (Inr (), u_flush_tools (set_data n (d\<lparr>priority := q\<rparr>) s1))))"

definition hide_tool :: "string \<Rightarrow> string \<Rightarrow> suite \<Rightarrow> (error + unit) \<times> suite" where
  "hide_tool cn t s =
     (case u_context cn s of
        Inl e \<Rightarrow> (Inl e, s)
      | Inr d \<Rightarrow>
          if t \<notin> hidden_tools d then
            (Inr (), u_flush_tools (set_data cn (d\<lparr>hidden_tools := insert t (hidden_tools d)\<rparr>) s))
          else (Inr (), s))"

definition unhide_tool :: "string \<Rightarrow> string \<Rightarrow> suite \<Rightarrow> (error + unit) \<times> suite" where
  "unhide_tool cn t s =
     (case u_context cn s of
        Inl e \<Rightarrow> (Inl e, s)
      | Inr d \<Rightarrow>
          if t \<in> hidden_tools d then
            (Inr (), u_flush_tools (set_data cn (d\<lparr>hidden_tools := hidden_tools d - {t}\<rparr>) s))
          else (Inr (), s))"

definition alias_tool :: "string \<Rightarrow> string \<Rightarrow> string \<Rightarrow> suite \<Rightarrow> (error + unit) \<times> suite" where
  "alias_tool cn t a s =
     (case u_context cn s of
        Inl e \<Rightarrow> (Inl e, s)
      | Inr d \<Rightarrow>
          if tool_aliases d t = None then
            (Inr (), u_flush_tools (set_data cn (d\<lparr>tool_aliases := (tool_aliases d)(t \<mapsto> a)\<rparr>) s))
          else (Inr (), s))"

definition dealias_tool :: "string \<Rightarrow> string \<Rightarrow> suite \<Rightarrow> (error + unit) \<times> suite" where
  "dealias_tool cn t s =
     (case u_context cn s of
        Inl e \<Rightarrow> (Inl e, s)
      | Inr d \<Rightarrow>
          if tool_aliases d t \<noteq> None then
            (Inr (), u_flush_tools (set_data cn (d\<lparr>tool_aliases := (tool_aliases d)(t := None)\<rparr>) s))
          else (Inr (), s))"

section \<open>Files and the modules outside \<open>suite.py\<close>\<close>

text \<open>
  What \<open>suite.py\<close> reads and writes: \<open>suite.yaml\<close> (the YAML dump of \<open>to_dict\<close>), one
  \<open>.rxt\<close> file per context (written by \<open>context.save\<close>, read by
  \<open>ResolvedContext.load\<close>) and one forwarding script per tool (written by
  \<open>create_forwarding_script\<close>). None of these modules is part of \<open>suite.py\<close>; they are
  taken at their interface: a file holds the value that was written to it, and reading
  gives that value back. A file system is an association list from paths to files;
  a directory exists when a file lies below it, so \<open>os.makedirs\<close> changes nothing.
  The suite file keeps the entries in the order of the dict, and a saved context lists
  its tools in the same order; either order is observed by the resolution only among
  entries of equal priority, or among tools of one context with the same alias.
\<close>

datatype file_content =
    SuiteYaml "(string \<times> context_entry) list"
  | Rxt resolved_context
  | ForwardingScript string string string string
  | Unparsable

type_synonym filesystem = "(string \<times> file_content) list"

text \<open>\<open>os.path.join\<close> (posixpath) of two components.\<close>

definition path_join :: "string \<Rightarrow> string \<Rightarrow> string" where
  "path_join a b =
     (if b \<noteq> [] \<and> hd b = CHR ''/'' then b
      else if a = [] \<or> last a = CHR ''/'' then a @ b
      else a @ ''/'' @ b)"

definition rstrip_slash :: "string \<Rightarrow> string" where
  "rstrip_slash p = rev (dropWhile (\<lambda>c. c = CHR ''/'') (rev p))"

text \<open>\<open>os.path.dirname\<close> (posixpath).\<close>

definition dirname :: "string \<Rightarrow> string" where
  "dirname p =
     (let head = rev (dropWhile (\<lambda>c. c \<noteq> CHR ''/'') (rev p))
      in if head \<noteq> [] \<and> \<not> list_all (\<lambda>c. c = CHR ''/'') head then rstrip_slash head
         else head)"

definition is_under :: "string \<Rightarrow> string \<Rightarrow> bool" where
  "is_under p q = (take (length (rstrip_slash p) + 1) q = rstrip_slash p @ ''/'')"

definition isfile :: "filesystem \<Rightarrow> string \<Rightarrow> bool" where
  "isfile fs p = (map_of fs p \<noteq> None)"

definition path_exists :: "filesystem \<Rightarrow> string \<Rightarrow> bool" where
  "path_exists fs p = list_ex (\<lambda>(q, _). q = p \<or> is_under p q) fs"

definition rmtree :: "string \<Rightarrow> filesystem \<Rightarrow> error + filesystem" where
  "rmtree p fs =
     (if isfile fs p then Inl (OSError p)
      else Inr (filter (\<lambda>(q, _). \<not> is_under p q) fs))"

definition write_file :: "string \<Rightarrow> file_content \<Rightarrow> filesystem \<Rightarrow> filesystem" where
  "write_file p f fs = AList.update p f fs"

definition ResolvedContext_load :: "filesystem \<Rightarrow> string \<Rightarrow> error + resolved_context" where
  "ResolvedContext_load fs p =
     (case map_of fs p of
        None \<Rightarrow> Inl (IOError p)
      | Some (Rxt c) \<Rightarrow> Inr c
      | Some _ \<Rightarrow> Inl (ResolvedContextError p))"

definition ResolvedContext_save :: "resolved_context \<Rightarrow> string \<Rightarrow> filesystem \<Rightarrow> filesystem" where
  "ResolvedContext_save c p fs = write_file p (Rxt c) fs"

definition create_forwarding_script ::
  "string \<Rightarrow> string \<Rightarrow> string \<Rightarrow> string \<Rightarrow> string \<Rightarrow> filesystem \<Rightarrow> filesystem" where
  "create_forwarding_script filepath module func_name cn tn fs =
     write_file filepath (ForwardingScript module func_name cn tn) fs"

section \<open>Access to a context\<close>

text \<open>
  \<open>Suite.context\<close>. A \<open>ResolvedContext\<close> object is true in \<open>if context\<close>; the test
  fails only when the key is missing. \<open>assert self.load_path\<close> fails on \<open>None\<close> and on
  the empty string.
\<close>

definition suite_context ::
  "filesystem \<Rightarrow> string \<Rightarrow> suite \<Rightarrow> (error + resolved_context) \<times> suite" where
  "suite_context fs n s =
     (case u_context n s of
        Inl e \<Rightarrow> (Inl e, s)
      | Inr d \<Rightarrow>
          (case context d of
             Some c \<Rightarrow> (Inr c, s)
           | None \<Rightarrow>
               (case load_path s of
                  None \<Rightarrow> (Inl AssertionError, s)
                | Some lp \<Rightarrow>
                    if lp = [] then (Inl AssertionError, s)
                    else
                      (case ResolvedContext_load fs
                              (path_join (path_join lp ''contexts'') (n @ ''.rxt'')) of
                         Inl e \<Rightarrow> (Inl e, s)
                       | Inr c \<Rightarrow> (Inr c, set_data n (d\<lparr>context := Some c\<rparr>) s)))))"

section \<open>Resolution of the tool names\<close>

text \<open>The body of the innermost loop of \<open>_update_tools\<close>, for one tool name.\<close>

definition final_alias :: "context_entry \<Rightarrow> string \<Rightarrow> string" where
  "final_alias d t =
     (case tool_aliases d t of
        Some a \<Rightarrow> a
      | None \<Rightarrow> (case prefix d of None \<Rightarrow> [] | Some p \<Rightarrow> p) @ t
                 @ (case suffix d of None \<Rightarrow> [] | Some x \<Rightarrow> x))"

definition add_tool ::
  "context_entry \<Rightarrow> variant \<Rightarrow> string \<Rightarrow> tool_table \<times> conflict_table
     \<Rightarrow> tool_table \<times> conflict_table" where
  "add_tool d v t tc =
     (case tc of (T, C) \<Rightarrow>
        if t \<in> hidden_tools d then (T, C)
        else
          let alias = final_alias d t;
              entry = \<lparr>tool_name = t, tool_alias = alias,
                       context_name = name d, variant = v\<rparr>
          in if map_of T alias \<noteq> None then
               (T, AList.update alias
                     ((case map_of C alias of None \<Rightarrow> [] | Some l \<Rightarrow> l) @ [entry]) C)
             else (AList.update alias entry T, C))"

text \<open>The two inner loops, over the tools of one context.\<close>

definition add_context_tools ::
  "context_entry \<Rightarrow> resolved_context \<Rightarrow> tool_table \<times> conflict_table
     \<Rightarrow> tool_table \<times> conflict_table" where
  "add_context_tools d c tc =
     fold (\<lambda>(v, tool_names). fold (add_tool d v) tool_names) (context_tools c) tc"

text \<open>
  The outer loop, over the sorted entries. \<open>self.context\<close> may raise; the tables built
  so far then stay in the suite. It may also store a loaded context in the suite.
\<close>

fun update_loop ::
  "filesystem \<Rightarrow> context_entry list \<Rightarrow> tool_table \<times> conflict_table \<Rightarrow> suite
     \<Rightarrow> error option \<times> (tool_table \<times> conflict_table) \<times> suite" where
  "update_loop fs [] tc s = (None, tc, s)"
| "update_loop fs (d # ds) tc s =
     (case suite_context fs (name d) s of
        (Inl e, s') \<Rightarrow> (Some e, tc, s')
      | (Inr c, s') \<Rightarrow> update_loop fs ds (add_context_tools d c tc) s')"

definition u_update_tools :: "filesystem \<Rightarrow> suite \<Rightarrow> (error + unit) \<times> suite" where
  "u_update_tools fs s =
     (if tools s \<noteq> None then (Inr (), s)
      else
        (case update_loop fs (rev (u_sorted_contexts s)) ([], []) s of
           (r, (T, C), s') \<Rightarrow>
             ((case r of None \<Rightarrow> Inr () | Some e \<Rightarrow> Inl e),
              s'\<lparr>tools := Some T, tool_conflicts := Some C\<rparr>)))"

definition get_tools :: "filesystem \<Rightarrow> suite \<Rightarrow> (error + tool_table option) \<times> suite" where
  "get_tools fs s =
     (case u_update_tools fs s of
        (Inl e, s') \<Rightarrow> (Inl e, s')
      | (Inr _, s') \<Rightarrow> (Inr (tools s'), s'))"

definition get_conflicting_aliases :: "filesystem \<Rightarrow> suite \<Rightarrow> (error + string list) \<times> suite" where
  "get_conflicting_aliases fs s =
     (case u_update_tools fs s of
        (Inl e, s') \<Rightarrow> (Inl e, s')
      | (Inr _, s') \<Rightarrow>
          (case tool_conflicts s' of
             None \<Rightarrow> (Inl AttributeError, s')
           | Some C \<Rightarrow> (Inr (map fst C), s')))"

definition get_alias_conflicts ::
  "filesystem \<Rightarrow> string \<Rightarrow> suite \<Rightarrow> (error + resolved_tool list option) \<times> suite" where
  "get_alias_conflicts fs a s =
     (case u_update_tools fs s of
        (Inl e, s') \<Rightarrow> (Inl e, s')
      | (Inr _, s') \<Rightarrow>
          (case tool_conflicts s' of
             None \<Rightarrow> (Inl AttributeError, s')
           | Some C \<Rightarrow> (Inr (map_of C a), s')))"

section \<open>Saving and loading\<close>

definition context_names :: "suite \<Rightarrow> string list" where
  "context_names s = map fst (contexts s)"

definition to_dict :: "suite \<Rightarrow> (string \<times> context_entry) list" where
  "to_dict s = map (\<lambda>(k, d). (k, d\<lparr>context := None\<rparr>)) (contexts s)"

text \<open>\<open>max\<close> of an empty sequence raises \<open>ValueError\<close>.\<close>

definition from_dict :: "(string \<times> context_entry) list \<Rightarrow> error + suite" where
  "from_dict d =
     (if d = [] then Inl ValueError
      else Inr \<lparr>load_path = None, contexts = d,
                next_priority = Max (set (map (\<lambda>(k, x). priority x) d)) + 1,
                tools = None, tool_conflicts = None\<rparr>)"

fun save_contexts ::
  "string \<Rightarrow> string list \<Rightarrow> suite \<Rightarrow> filesystem \<Rightarrow> (error + unit) \<times> suite \<times> filesystem" where
  "save_contexts contexts_path [] s fs = (Inr (), s, fs)"
| "save_contexts contexts_path (n # ns) s fs =
     (case suite_context fs n s of
        (Inl e, s') \<Rightarrow> (Inl e, s', fs)
      | (Inr c, s') \<Rightarrow>
          save_contexts contexts_path ns s'
            (ResolvedContext_save c (path_join contexts_path (n @ ''.rxt'')) fs))"

definition write_wrappers :: "string \<Rightarrow> tool_table \<Rightarrow> filesystem \<Rightarrow> filesystem" where
  "write_wrappers bin_path T fs =
     fold (\<lambda>(a, d). create_forwarding_script (path_join bin_path a) ''suite''
                      ''_FWD__invoke_suite_tool_alias'' (context_name d) (tool_name d)) T fs"

definition save :: "string \<Rightarrow> suite \<Rightarrow> filesystem \<Rightarrow> (error + unit) \<times> suite \<times> filesystem" where
  "save path s fs =
     (case (if path_exists fs path then rmtree path fs else Inr fs) of
        Inl e \<Rightarrow> (Inl e, s, fs)
      | Inr fs1 \<Rightarrow>
          let contexts_path = path_join path ''contexts'';
              fs2 = write_file (path_join path ''suite.yaml'') (SuiteYaml (to_dict s)) fs1
          in (case save_contexts contexts_path (context_names s) s fs2 of
                (Inl e, s3, fs3) \<Rightarrow> (Inl e, s3, fs3)
              | (Inr _, s3, fs3) \<Rightarrow>
                  let bin_path = path_join path ''bin''
                  in (case get_tools fs3 s3 of
                        (Inl e, s4) \<Rightarrow> (Inl e, s4, fs3)
                      | (Inr None, s4) \<Rightarrow> (Inl AttributeError, s4, fs3)
                      | (Inr (Some T), s4) \<Rightarrow> (Inr (), s4, write_wrappers bin_path T fs3))))"

definition load :: "string \<Rightarrow> filesystem \<Rightarrow> error + suite" where
  "load path fs =
     (if \<not> path_exists fs path then Inl (IOError path)
      else
        (case map_of fs (path_join path ''suite.yaml'') of
           None \<Rightarrow> Inl (SuiteError ''Not a suite: %r'' path)
         | Some Unparsable \<Rightarrow> Inl (SuiteError ''Failed loading suite: %s'' ''YAMLError'')
         | Some (SuiteYaml d) \<Rightarrow>
             (case from_dict d of
                Inl e \<Rightarrow> Inl e
              | Inr s \<Rightarrow> Inr (s\<lparr>load_path := Some path\<rparr>))
         | Some _ \<Rightarrow> Inl (KeyError ''contexts'')))"

section \<open>The alias script\<close>

text \<open>
  The class \<open>Alias\<close>. Its \<open>run\<close> method reads the command line of the process
  (\<open>parser.parse_known_args()\<close> without arguments parses \<open>sys.argv[1:]\<close>) and asks
  \<open>select\<close> whether standard input has data, so both are part of the process state.
  The argument parser and \<open>context.execute_shell\<close> belong to other modules and are
  parameters: the parser returns the options and the arguments it did not consume, or
  the exit code with which it ends the process.
\<close>

record Alias =
  self_context_name :: string
  self_context :: resolved_context
  self_tool_name :: string
  self_cli_args :: "string list"

record opts =
  interactive :: bool
  command :: "string list option"
  rcfile :: "string option"
  norc :: bool
  stdin :: bool

record process =
  argv :: "string list"
  stdin_ready :: bool

text \<open>The keyword arguments of \<open>context.execute_shell\<close>.\<close>

record shell_call =
  sh_command :: "string list option"
  sh_stdin :: bool
  sh_rcfile :: "string option"
  sh_norc :: bool
  sh_block :: bool

type_synonym parser = "string \<Rightarrow> string list \<Rightarrow> int + (opts \<times> string list)"

text \<open>
  \<open>Alias.run\<close>. The result is the return code, the call made to
  \<open>context.execute_shell\<close> and the prompt set by \<open>config.override\<close>, if any.
  \<open>if opts.command\<close> is false for \<open>None\<close> and for the empty list.
\<close>

definition Alias_run ::
  "parser \<Rightarrow> (resolved_context \<Rightarrow> shell_call \<Rightarrow> int) \<Rightarrow> process \<Rightarrow> Alias
     \<Rightarrow> error + (int \<times> shell_call \<times> string option)" where
  "Alias_run parse execute_shell ps self =
     (case parse (self_tool_name self) (tl (argv ps)) of
        Inl code \<Rightarrow> Inl (SystemExit code)
      | Inr (opts0, tool_args) \<Rightarrow>
          let opts = (if stdin opts0 \<and> \<not> stdin_ready ps then opts0\<lparr>stdin := False\<rparr> else opts0);
              ctx = self_context self;
              cmd_prompt =
                (if command opts \<noteq> None \<and> command opts \<noteq> Some [] then (command opts, None)
                 else if interactive opts then (None, Some (self_context_name self @ ''>''))
                 else (Some (self_tool_name self # tool_args), None));
              call = \<lparr>sh_command = fst cmd_prompt, sh_stdin = stdin opts,
                      sh_rcfile = rcfile opts, sh_norc = norc opts, sh_block = True\<rparr>
          in Inr (execute_shell ctx call, call, snd cmd_prompt))"

text \<open>
  \<open>_FWD__invoke_suite_tool_alias\<close>. It ends in \<open>sys.exit(retcode)\<close>; the result carries
  that code and what \<open>run\<close> did.
\<close>

definition u_FWD_invoke_suite_tool_alias ::
  "parser \<Rightarrow> (resolved_context \<Rightarrow> shell_call \<Rightarrow> int) \<Rightarrow> filesystem \<Rightarrow> process
     \<Rightarrow> string \<Rightarrow> string \<Rightarrow> string \<Rightarrow> string list
     \<Rightarrow> error + (int \<times> shell_call \<times> string option)" where
  "u_FWD_invoke_suite_tool_alias parse execute_shell fs ps cn tn script cli =
     (let suite_path = dirname (dirname script);
          path = path_join (path_join suite_path ''contexts'') (cn @ ''.rxt'')
      in case ResolvedContext_load fs path of
           Inl e \<Rightarrow> Inl e
         | Inr ctx \<Rightarrow>
             Alias_run parse execute_shell ps
               \<lparr>self_context_name = cn, self_context = ctx,
                self_tool_name = tn, self_cli_args = cli\<rparr>)"

text \<open>
  Modelled from the spec: the argument parser of the alias script (the vendored
  \<open>argparse\<close> module is not part of \<open>suite.py\<close>). The options start with \<open>+\<close>:
  \<open>+i\<close>/\<open>++interactive\<close>, \<open>+c\<close>/\<open>++command\<close> with one or more arguments (up to the next
  option), \<open>++rcfile\<close> with one argument, \<open>++norc\<close> and \<open>+s\<close>/\<open>++stdin\<close>. Every other
  argument is left for the tool. A missing option argument ends the process with code 2.
\<close>

definition is_option :: "string \<Rightarrow> bool" where
  "is_option a = (a \<noteq> [] \<and> hd a = CHR ''+'')"

function parse_args :: "string list \<Rightarrow> opts \<Rightarrow> string list \<Rightarrow> int + (opts \<times> string list)" where
  "parse_args [] opts extras = Inr (opts, extras)"
| "parse_args (a # as) opts extras =
     (if a = ''+i'' \<or> a = ''++interactive'' then parse_args as (opts\<lparr>interactive := True\<rparr>) extras
      else if a = ''+c'' \<or> a = ''++command'' then
        (if takeWhile (\<lambda>x. \<not> is_option x) as = [] then Inl 2
         else parse_args (dropWhile (\<lambda>x. \<not> is_option x) as)
                (opts\<lparr>command := Some (takeWhile (\<lambda>x. \<not> is_option x) as)\<rparr>) extras)
      else if a = ''++rcfile'' then
        (case as of
           [] \<Rightarrow> Inl 2
         | r # rest \<Rightarrow> if is_option r then Inl 2
                       else parse_args rest (opts\<lparr>rcfile := Some r\<rparr>) extras)
      else if a = ''++norc'' then parse_args as (opts\<lparr>norc := True\<rparr>) extras
      else if a = ''+s'' \<or> a = ''++stdin'' then parse_args as (opts\<lparr>stdin := True\<rparr>) extras
      else parse_args as opts (extras @ [a]))"
  by pat_completeness auto

termination
  by (relation "measure (\<lambda>(as, opts, extras). length as)")
    (auto simp add: length_dropWhile_le le_imp_less_Suc)

definition parse_known_args :: parser where
  "parse_known_args prog args =
     parse_args args \<lparr>interactive = False, command = None, rcfile = None,
                      norc = False, stdin = False\<rparr> []"

section \<open>The tables as a function of the tools found\<close>

text \<open>
  What \<open>_update_tools\<close> does with one tool that is not hidden: the first tool with an
  alias wins it, every later one is appended to the conflict list of the alias.
\<close>

definition claim_alias ::
  "resolved_tool \<Rightarrow> tool_table \<times> conflict_table \<Rightarrow> tool_table \<times> conflict_table" where
  "claim_alias e tc =
     (case tc of (T, C) \<Rightarrow>
        if map_of T (tool_alias e) \<noteq> None then
          (T, AList.update (tool_alias e)
                ((case map_of C (tool_alias e) of None \<Rightarrow> [] | Some l \<Rightarrow> l) @ [e]) C)
        else (AList.update (tool_alias e) e T, C))"

text \<open>
  The tools of one context that are not hidden, in the order of the two inner loops.
\<close>

definition tool_entries :: "context_entry \<Rightarrow> resolved_context \<Rightarrow> resolved_tool list" where
  "tool_entries d c =
     concat (map (\<lambda>(v, ts).
        map (\<lambda>t. \<lparr>tool_name = t, tool_alias = final_alias d t,
                   context_name = name d, variant = v\<rparr>)
            (filter (\<lambda>t. t \<notin> hidden_tools d) ts)) (context_tools c))"

text \<open>
  Reading a list of tools in the order they were found: the winner of an alias is the
  first tool with it, the losers are the others, and an alias with fewer than two tools
  has no conflict list. A pair of tables represents the list when it holds these.
\<close>

definition winner_of :: "resolved_tool list \<Rightarrow> string \<Rightarrow> resolved_tool option" where
  "winner_of es a = find (\<lambda>e. tool_alias e = a) es"

definition losers_of :: "resolved_tool list \<Rightarrow> string \<Rightarrow> resolved_tool list option" where
  "losers_of es a =
     (case filter (\<lambda>e. tool_alias e = a) es of
        x # y # r \<Rightarrow> Some (y # r)
      | _ \<Rightarrow> None)"

definition represents :: "resolved_tool list \<Rightarrow> tool_table \<times> conflict_table \<Rightarrow> bool" where
  "represents es tc =
     ((\<forall>a. map_of (fst tc) a = winner_of es a) \<and> (\<forall>a. map_of (snd tc) a = losers_of es a))"

section \<open>Invariants of a suite\<close>

text \<open>
  The keys of the dict are distinct, and each entry is stored under its own name.
\<close>

definition wf_suite :: "suite \<Rightarrow> bool" where
  "wf_suite s = (distinct (map fst (contexts s)) \<and> list_all (\<lambda>(k, d). name d = k) (contexts s))"

text \<open>
  \<open>cache_ext s s'\<close>: \<open>s'\<close> is \<open>s\<close> with some more contexts loaded. Nothing but the
  \<open>context\<close> key of an entry differs, and a context that was present stays.
\<close>

definition cache_ext :: "suite \<Rightarrow> suite \<Rightarrow> bool" where
  "cache_ext s s' =
     (to_dict s' = to_dict s \<and>
      (\<forall>k d. map_of (contexts s) k = Some d \<and> context d \<noteq> None
             \<longrightarrow> map_of (contexts s') k = Some d) \<and>
      load_path s' = load_path s \<and> next_priority s' = next_priority s \<and>
      tools s' = tools s \<and> tool_conflicts s' = tool_conflicts s)"

text \<open>
  All tools found, from the entries visited and the context obtained for each.
\<close>

definition candidates :: "(context_entry \<times> resolved_context) list \<Rightarrow> resolved_tool list" where
  "candidates ps = concat (map (\<lambda>(d, c). tool_entries d c) ps)"

text \<open>
  The priority of the context with a given name.
\<close>

definition prio_of :: "suite \<Rightarrow> string \<Rightarrow> int" where
  "prio_of s cn = (case map_of (contexts s) cn of None \<Rightarrow> 0 | Some d \<Rightarrow> priority d)"

text \<open>
  A list of tools is good for a suite when each tool names a context of the suite in
  which it is not hidden, and the priorities of the contexts do not increase along the
  list. The cached tables are in order when there are none or they represent a good list;
  this also holds of the part built by a resolution that raised.
\<close>

definition good_cands :: "suite \<Rightarrow> resolved_tool list \<Rightarrow> bool" where
  "good_cands s es =
     ((\<forall>e \<in> set es. \<exists>d. map_of (contexts s) (context_name e) = Some d \<and>
                          tool_name e \<notin> hidden_tools d) \<and>
      sorted_wrt (\<lambda>e e'. prio_of s (context_name e') \<le> prio_of s (context_name e)) es)"

definition memo_ok :: "suite \<Rightarrow> bool" where
  "memo_ok s =
     ((tools s = None \<and> tool_conflicts s = None) \<or>
      (\<exists>T C es. tools s = Some T \<and> tool_conflicts s = Some C \<and>
                 represents es (T, C) \<and> good_cands s es))"

section \<open>Sequences of operations\<close>

text \<open>
  The calls that change a suite: the nine public mutators, \<open>Suite.context\<close> and
  \<open>_update_tools\<close> (called by \<open>get_tools\<close>, \<open>get_conflicting_aliases\<close> and
  \<open>get_alias_conflicts\<close>), the last two with the file system they find. \<open>run\<close> gives
  the suite after a sequence of calls, each of which may have returned or raised.
\<close>

datatype operation =
    Add_context string resolved_context "string option"
  | Remove_context string
  | Set_context_prefix string string
  | Set_context_suffix string string
  | Bump_context string
  | Hide_tool string string
  | Unhide_tool string string
  | Alias_tool string string string
  | Dealias_tool string string
  | Get_context filesystem string
  | Update_tools filesystem

fun apply_operation :: "operation \<Rightarrow> suite \<Rightarrow> suite" where
  "apply_operation (Add_context n c descr) s = snd (add_context n c descr s)"
| "apply_operation (Remove_context n) s = snd (remove_context n s)"
| "apply_operation (Set_context_prefix n p) s = snd (set_context_prefix n p s)"
| "apply_operation (Set_context_suffix n p) s = snd (set_context_suffix n p s)"
| "apply_operation (Bump_context n) s = snd (bump_context n s)"
| "apply_operation (Hide_tool cn t) s = snd (hide_tool cn t s)"
| "apply_operation (Unhide_tool cn t) s = snd (unhide_tool cn t s)"
| "apply_operation (Alias_tool cn t a) s = snd (alias_tool cn t a s)"
| "apply_operation (Dealias_tool cn t) s = snd (dealias_tool cn t s)"
| "apply_operation (Get_context fs n) s = snd (suite_context fs n s)"
| "apply_operation (Update_tools fs) s = snd (u_update_tools fs s)"

definition run :: "operation list \<Rightarrow> suite \<Rightarrow> suite" where
  "run ops s = fold apply_operation ops s"

text \<open>
  \<open>exposed s e\<close>: the context named by \<open>e\<close> is in the suite and holds a context object
  that lists the tool of \<open>e\<close> with its variant, the tool is not hidden, and the alias of
  \<open>e\<close> is its final alias.
\<close>

definition exposed :: "suite \<Rightarrow> resolved_tool \<Rightarrow> bool" where
  "exposed s e =
     (case map_of (contexts s) (context_name e) of
        None \<Rightarrow> False
      | Some d \<Rightarrow>
          (case context d of
             None \<Rightarrow> False
           | Some c \<Rightarrow>
               list_ex (\<lambda>(v, ts). v = variant e \<and> tool_name e \<in> set ts) (context_tools c) \<and>
               tool_name e \<notin> hidden_tools d \<and>
               tool_alias e = final_alias d (tool_name e)))"

text \<open>
  Every stored priority is below the counter; the stored priorities are distinct; every
  entry holds a context object.
\<close>

definition clock_above :: "suite \<Rightarrow> bool" where
  "clock_above s = list_all (\<lambda>(k, d). priority d < next_priority s) (contexts s)"

definition distinct_priorities :: "suite \<Rightarrow> bool" where
  "distinct_priorities s = distinct (map (\<lambda>(k, d). priority d) (contexts s))"

definition all_live :: "suite \<Rightarrow> bool" where
  "all_live s = list_all (\<lambda>(k, d). context d \<noteq> None) (contexts s)"

text \<open>
  The priority an operation gives to an entry: the one stored under the name after
  \<open>add_context\<close>, \<open>set_context_prefix\<close>, \<open>set_context_suffix\<close> or \<open>bump_context\<close>
  returned. \<open>assigned_priorities\<close> lists them along a sequence of operations.
\<close>

fun assigned_priority :: "operation \<Rightarrow> suite \<Rightarrow> int option" where
  "assigned_priority (Add_context n c descr) s =
     (case add_context n c descr s of
        (Inr _, s') \<Rightarrow> map_option priority (map_of (contexts s') n)
      | (Inl _, _) \<Rightarrow> None)"
| "assigned_priority (Set_context_prefix n p) s =
     (case set_context_prefix n p s of
        (Inr _, s') \<Rightarrow> map_option priority (map_of (contexts s') n)
      | (Inl _, _) \<Rightarrow> None)"
| "assigned_priority (Set_context_suffix n p) s =
     (case set_context_suffix n p s of
        (Inr _, s') \<Rightarrow> map_option priority (map_of (contexts s') n)
      | (Inl _, _) \<Rightarrow> None)"
| "assigned_priority (Bump_context n) s =
     (case bump_context n s of
        (Inr _, s') \<Rightarrow> map_option priority (map_of (contexts s') n)
      | (Inl _, _) \<Rightarrow> None)"
| "assigned_priority _ s = None"

fun assigned_priorities :: "operation list \<Rightarrow> suite \<Rightarrow> int list" where
  "assigned_priorities [] s = []"
| "assigned_priorities (x # xs) s =
     (case assigned_priority x s of None \<Rightarrow> [] | Some p \<Rightarrow> [p])
       @ assigned_priorities xs (apply_operation x s)"

text \<open>
  What one operation other than \<open>_update_tools\<close> can do to the entries and the
  counter: nothing, delete a key, replace an entry keeping its priority, or store an
  entry with the value of the counter and advance the counter.
\<close>

definition mutation_shape :: "suite \<Rightarrow> suite \<Rightarrow> bool" where
  "mutation_shape s s' =
     ((contexts s' = contexts s \<and> next_priority s' = next_priority s) \<or>
      (\<exists>n. contexts s' = AList.delete n (contexts s) \<and> next_priority s' = next_priority s) \<or>
      (\<exists>n d d'. map_of (contexts s) n = Some d \<and>
          contexts s' = AList.update n d' (contexts s) \<and>
          priority d' = priority d \<and> (context d \<noteq> None \<longrightarrow> context d' \<noteq> None) \<and>
          next_priority s' = next_priority s) \<or>
      (\<exists>n d'. contexts s' = AList.update n d' (contexts s) \<and>
          priority d' = next_priority s \<and> next_priority s' = next_priority s + 1 \<and>
          (case map_of (contexts s) n of
             None \<Rightarrow> context d' \<noteq> None
           | Some d \<Rightarrow> context d' = context d)))"





section \<open>Example suites\<close>

text \<open>
  Two contexts: \<open>maya\<close> provides the tool \<open>maya\<close>, \<open>nuke\<close> provides \<open>maya\<close> and
  \<open>nuke\<close>.
\<close>

definition ctx_maya :: resolved_context where
  "ctx_maya = \<lparr>success = True, context_tools = [(''maya-2015'', [''maya''])]\<rparr>"

definition ctx_nuke :: resolved_context where
  "ctx_nuke = \<lparr>success = True, context_tools = [(''nuke-9'', [''maya'', ''nuke''])]\<rparr>"

definition suite_two :: suite where
  "suite_two = run [Add_context ''maya'' ctx_maya None, Add_context ''nuke'' ctx_nuke None] Suite_init"

definition suite_three :: suite where
  "suite_three = run [Add_context ''b'' ctx_maya None, Add_context ''a'' ctx_maya None,
                      Add_context ''c'' ctx_maya None] Suite_init"

definition suite_alias_clash :: suite where
  "suite_alias_clash = run [Add_context ''b'' ctx_nuke None, Add_context ''a'' ctx_maya None,
                            Alias_tool ''b'' ''nuke'' ''maya''] Suite_init"

definition tool_of :: "string \<Rightarrow> string \<Rightarrow> string \<Rightarrow> variant \<Rightarrow> resolved_tool" where
  "tool_of cn t a v = \<lparr>tool_name = t, tool_alias = a, context_name = cn, variant = v\<rparr>"


definition ops_hide_remove :: "operation list" where
  "ops_hide_remove = [Add_context ''maya'' ctx_maya None, Add_context ''nuke'' ctx_nuke None,
                      Update_tools [], Hide_tool ''nuke'' ''maya'', Remove_context ''maya'']"

definition ops_priorities :: "operation list" where
  "ops_priorities = [Add_context ''maya'' ctx_maya None, Add_context ''nuke'' ctx_nuke None,
                     Set_context_prefix ''maya'' ''fx_'', Hide_tool ''nuke'' ''maya'',
                     Bump_context ''nuke'', Set_context_suffix ''maya'' ''_x'',
                     Bump_context ''none'']"

definition entry_maya :: context_entry where
  "entry_maya = \<lparr>name = ''maya'', context = Some ctx_maya, tool_aliases = Map.empty,
                 hidden_tools = {}, description = None, priority = 1,
                 prefix = None, suffix = None\<rparr>"

text \<open>
  The files written by saving \<open>suite_two\<close> to \<open>/s\<close>, and the suite loaded from them.
\<close>

definition fs_saved :: filesystem where
  "fs_saved = snd (snd (save ''/s'' suite_two []))"

definition suite_loaded :: suite where
  "suite_loaded = (case load ''/s'' fs_saved of Inr s \<Rightarrow> s | Inl e \<Rightarrow> Suite_init)"

definition no_shell :: "resolved_context \<Rightarrow> shell_call \<Rightarrow> int" where
  "no_shell c call = 0"

definition alias_maya :: Alias where
  "alias_maya = \<lparr>self_context_name = ''nuke'', self_context = ctx_nuke,
                 self_tool_name = ''maya'', self_cli_args = [''+i'']\<rparr>"


section \<open>The inner loops\<close>

lemma add_tool_claim:
  "add_tool d v t tc =
     (if t \<in> hidden_tools d then tc
      else claim_alias \<lparr>tool_name = t, tool_alias = final_alias d t,
                        context_name = name d, variant = v\<rparr> tc)"
  by (cases tc) (simp add: add_tool_def claim_alias_def Let_def)

lemma fold_add_tool:
  "fold (add_tool d v) ts tc =
     fold claim_alias
       (map (\<lambda>t. \<lparr>tool_name = t, tool_alias = final_alias d t,
                   context_name = name d, variant = v\<rparr>)
            (filter (\<lambda>t. t \<notin> hidden_tools d) ts)) tc"
  by (induction ts arbitrary: tc) (simp_all add: add_tool_claim)

lemma add_context_tools_fold:
  "add_context_tools d c tc = fold claim_alias (tool_entries d c) tc"
proof -
  have "fold (\<lambda>(v, ts). fold (add_tool d v) ts) vs tc =
        fold claim_alias (concat (map (\<lambda>(v, ts).
          map (\<lambda>t. \<lparr>tool_name = t, tool_alias = final_alias d t,
                   context_name = name d, variant = v\<rparr>)
            (filter (\<lambda>t. t \<notin> hidden_tools d) ts)) vs)) tc" for vs
    by (induction vs arbitrary: tc) (auto simp add: fold_add_tool)
  then show ?thesis
    by (simp add: add_context_tools_def tool_entries_def)
qed

lemma find_append_alias:
  "find P (xs @ ys) = (case find P xs of None \<Rightarrow> find P ys | Some x \<Rightarrow> Some x)"
  by (induction xs) simp_all

lemma find_None_filter: "find P xs = None \<longleftrightarrow> filter P xs = []"
  by (induction xs) simp_all

lemma represents_Nil: "represents [] ([], [])"
  by (simp add: represents_def winner_of_def losers_of_def)

lemma represents_step:
  assumes "represents es tc"
  shows "represents (es @ [e]) (claim_alias e tc)"
proof (cases tc)
  case (Pair T C)
  from assms Pair have T: "\<And>a. map_of T a = winner_of es a"
    and C: "\<And>a. map_of C a = losers_of es a"
    by (simp_all add: represents_def)
  show ?thesis
  proof (cases "map_of T (tool_alias e) = None")
    case True
    then have f: "filter (\<lambda>x. tool_alias x = tool_alias e) es = []"
      using T by (simp add: winner_of_def find_None_filter)
    have "\<And>a. map_of (AList.update (tool_alias e) e T) a = winner_of (es @ [e]) a"
      using T True
      by (auto simp add: update_conv' winner_of_def find_append_alias split: option.splits)
    moreover have "\<And>a. map_of C a = losers_of (es @ [e]) a"
      using C f by (auto simp add: losers_of_def split: list.splits)
    ultimately show ?thesis
      using Pair True by (simp add: represents_def claim_alias_def)
  next
    case False
    then obtain x r where f: "filter (\<lambda>x. tool_alias x = tool_alias e) es = x # r"
      using T by (cases "filter (\<lambda>x. tool_alias x = tool_alias e) es")
        (auto simp add: winner_of_def find_None_filter)
    have w: "\<And>a. map_of T a = winner_of (es @ [e]) a"
      using T False
      by (auto simp add: winner_of_def find_append_alias split: option.splits)
    have old: "(case map_of C (tool_alias e) of None \<Rightarrow> [] | Some l \<Rightarrow> l) = r"
      using C [of "tool_alias e"] f by (cases r) (simp_all add: losers_of_def)
    have "\<And>a. map_of (AList.update (tool_alias e) (r @ [e]) C) a = losers_of (es @ [e]) a"
      using C f by (auto simp add: update_conv' losers_of_def split: list.splits)
    then show ?thesis
      using Pair False w old by (simp add: represents_def claim_alias_def)
  qed
qed

lemma represents_fold:
  "represents es0 tc \<Longrightarrow> represents (es0 @ es) (fold claim_alias es tc)"
proof (induction es arbitrary: es0 tc)
  case Nil
  then show ?case by simp
next
  case (Cons e es)
  from Cons.IH [OF represents_step [OF Cons.prems, of e]]
  show ?case by simp
qed

section \<open>Loading a context changes nothing else\<close>

lemma cache_ext_refl: "cache_ext s s"
  by (simp add: cache_ext_def)

lemma cache_ext_trans: "cache_ext s s1 \<Longrightarrow> cache_ext s1 s2 \<Longrightarrow> cache_ext s s2"
  by (simp add: cache_ext_def)

lemma map_update_same_image:
  "map_of al n = Some d \<Longrightarrow> f d' = f d \<Longrightarrow>
   map (\<lambda>(k, x). (k, f x)) (AList.update n d' al) = map (\<lambda>(k, x). (k, f x)) al"
  by (induction al) (auto split: if_splits)

lemma suite_context_cases:
  assumes "suite_context fs n s = (r, s')"
  shows "s' = s \<or>
         (\<exists>d c. r = Inr c \<and> map_of (contexts s) n = Some d \<and> context d = None \<and>
                s' = set_data n (d\<lparr>context := Some c\<rparr>) s)"
proof (cases "map_of (contexts s) n")
  case None
  with assms show ?thesis
    by (simp add: suite_context_def u_context_def)
next
  case (Some d)
  show ?thesis
  proof (cases "context d")
    case c: (Some c)
    with assms Some show ?thesis
      by (simp add: suite_context_def u_context_def)
  next
    case None
    show ?thesis
    proof (cases "load_path s")
      case lp: None
      with assms Some None show ?thesis
        by (simp add: suite_context_def u_context_def)
    next
      case lp: (Some lp)
      show ?thesis
      proof (cases "ResolvedContext_load fs (path_join (path_join lp ''contexts'') (n @ ''.rxt''))")
        case (Inl e)
        with assms Some None lp show ?thesis
          by (simp add: suite_context_def u_context_def split: if_splits)
      next
        case (Inr c)
        show ?thesis
        proof (cases "lp = []")
          case True
          with assms Some None lp show ?thesis
            by (simp add: suite_context_def u_context_def)
        next
          case False
          with assms Some None lp Inr
          have "r = Inr c" "s' = set_data n (d\<lparr>context := Some c\<rparr>) s"
            by (simp_all add: suite_context_def u_context_def)
          with Some None show ?thesis by blast
        qed
      qed
    qed
  qed
qed

lemma suite_context_cache_ext:
  assumes "suite_context fs n s = (r, s')"
  shows "cache_ext s s'"
proof -
  from suite_context_cases [OF assms] show ?thesis
  proof
    assume "s' = s"
    then show ?thesis by (simp add: cache_ext_refl)
  next
    assume "\<exists>d c. r = Inr c \<and> map_of (contexts s) n = Some d \<and> context d = None \<and>
                s' = set_data n (d\<lparr>context := Some c\<rparr>) s"
    then obtain d c where d: "map_of (contexts s) n = Some d" "context d = None"
      and s': "s' = set_data n (d\<lparr>context := Some c\<rparr>) s"
      by blast
    have "to_dict s' = to_dict s"
      using map_update_same_image [OF d(1), of "\<lambda>x. x\<lparr>context := None\<rparr>" "d\<lparr>context := Some c\<rparr>"]
      by (simp add: s' to_dict_def set_data_def)
    moreover have "\<forall>k x. map_of (contexts s) k = Some x \<and> context x \<noteq> None
             \<longrightarrow> map_of (contexts s') k = Some x"
      using d by (auto simp add: s' set_data_def update_conv')
    ultimately show ?thesis
      by (simp add: cache_ext_def s' set_data_def)
  qed
qed

lemma suite_context_live:
  assumes "suite_context fs n s = (Inr c, s')"
  shows "\<exists>d. map_of (contexts s') n = Some d \<and> context d = Some c"
  using assms
  by (auto simp add: suite_context_def u_context_def set_data_def update_conv'
      split: option.splits sum.splits if_splits)

section \<open>The outer loop\<close>

lemma update_loop_represents:
  assumes "update_loop fs ds tc s = (r, tc', s')" and "represents es0 tc"
  shows "\<exists>ps rest. represents (es0 @ candidates ps) tc' \<and> cache_ext s s' \<and>
           ds = map fst ps @ rest \<and> (r = None \<longrightarrow> rest = []) \<and>
           (\<forall>(d, c) \<in> set ps. \<exists>d'. map_of (contexts s') (name d) = Some d' \<and> context d' = Some c)"
  using assms
proof (induction ds arbitrary: tc s es0)
  case Nil
  then have "represents (es0 @ candidates []) tc'" "cache_ext s s'"
    by (simp_all add: candidates_def cache_ext_refl)
  then show ?case by fastforce
next
  case (Cons d ds)
  obtain x s1 where sc: "suite_context fs (name d) s = (x, s1)"
    by (cases "suite_context fs (name d) s")
  have ext1: "cache_ext s s1"
    by (rule suite_context_cache_ext [OF sc])
  show ?case
  proof (cases x)
    case (Inl e)
    with Cons.prems sc have "tc' = tc" "s' = s1" by simp_all
    then have "represents (es0 @ candidates []) tc'" "cache_ext s s'"
      using Cons.prems(2) ext1 by (simp_all add: candidates_def)
    moreover have "d # ds = map fst ([] :: (context_entry \<times> resolved_context) list) @ (d # ds)"
      by simp
    moreover have "r \<noteq> None"
      using Cons.prems sc Inl by auto
    ultimately show ?thesis by fastforce
  next
    case (Inr c)
    with Cons.prems sc
    have loop: "update_loop fs ds (add_context_tools d c tc) s1 = (r, tc', s')"
      by simp
    have rep: "represents (es0 @ tool_entries d c) (add_context_tools d c tc)"
      using represents_fold [OF Cons.prems(2)] by (simp add: add_context_tools_fold)
    from Cons.IH [OF loop rep] obtain ps rest where
      ps: "represents ((es0 @ tool_entries d c) @ candidates ps) tc'" "cache_ext s1 s'"
        "ds = map fst ps @ rest" "r = None \<longrightarrow> rest = []"
        "\<forall>(d, c) \<in> set ps. \<exists>d'. map_of (contexts s') (name d) = Some d' \<and> context d' = Some c"
      by blast
    from suite_context_live [OF sc [unfolded Inr]] obtain d1 where
      "map_of (contexts s1) (name d) = Some d1" "context d1 = Some c"
      by blast
    then have live: "\<exists>d'. map_of (contexts s') (name d) = Some d' \<and> context d' = Some c"
      using ps(2) by (auto simp add: cache_ext_def)
    have "represents (es0 @ candidates ((d, c) # ps)) tc'"
      using ps(1) by (simp add: candidates_def)
    moreover have "cache_ext s s'"
      by (rule cache_ext_trans [OF ext1 ps(2)])
    moreover have "d # ds = map fst ((d, c) # ps) @ rest"
      using ps(3) by simp
    moreover have "\<forall>(d, c) \<in> set ((d, c) # ps).
        \<exists>d'. map_of (contexts s') (name d) = Some d' \<and> context d' = Some c"
      using live ps(5) by simp
    ultimately show ?thesis
      using ps(4) by blast
  qed
qed

section \<open>The cached tables\<close>

lemma map_of_to_dict:
  "map_of (to_dict s) k = map_option (\<lambda>d. d\<lparr>context := None\<rparr>) (map_of (contexts s) k)"
proof -
  have "map_of (map (\<lambda>(k, d). (k, d\<lparr>context := None\<rparr>)) al) k
          = map_option (\<lambda>d. d\<lparr>context := None\<rparr>) (map_of al k)" for al
    by (induction al) auto
  then show ?thesis by (simp add: to_dict_def)
qed

lemma same_dict_lookup:
  assumes "to_dict s' = to_dict s" and "map_of (contexts s) k = Some d"
  shows "\<exists>d'. map_of (contexts s') k = Some d' \<and> d'\<lparr>context := None\<rparr> = d\<lparr>context := None\<rparr>"
proof -
  have "map_of (to_dict s') k = map_of (to_dict s) k"
    using assms(1) by simp
  then show ?thesis
    using assms(2) by (auto simp add: map_of_to_dict)
qed

lemma stripped_fields:
  assumes "d'\<lparr>context := None\<rparr> = d\<lparr>context := None\<rparr>"
  shows "priority d' = priority d" and "hidden_tools d' = hidden_tools d"
    and "name d' = name d" and "tool_aliases d' = tool_aliases d"
    and "prefix d' = prefix d" and "suffix d' = suffix d"
proof -
  have "priority (d'\<lparr>context := None\<rparr>) = priority (d\<lparr>context := None\<rparr>)"
       "hidden_tools (d'\<lparr>context := None\<rparr>) = hidden_tools (d\<lparr>context := None\<rparr>)"
       "name (d'\<lparr>context := None\<rparr>) = name (d\<lparr>context := None\<rparr>)"
       "tool_aliases (d'\<lparr>context := None\<rparr>) = tool_aliases (d\<lparr>context := None\<rparr>)"
       "prefix (d'\<lparr>context := None\<rparr>) = prefix (d\<lparr>context := None\<rparr>)"
       "suffix (d'\<lparr>context := None\<rparr>) = suffix (d\<lparr>context := None\<rparr>)"
    using assms by simp_all
  then show "priority d' = priority d" and "hidden_tools d' = hidden_tools d"
    and "name d' = name d" and "tool_aliases d' = tool_aliases d"
    and "prefix d' = prefix d" and "suffix d' = suffix d"
    by simp_all
qed

lemma prio_of_same_dict:
  assumes "to_dict s' = to_dict s"
  shows "prio_of s' k = prio_of s k"
proof (cases "map_of (contexts s) k")
  case None
  then have "map_of (to_dict s) k = None" by (simp add: map_of_to_dict)
  then have "map_of (to_dict s') k = None" using assms by simp
  then have "map_of (contexts s') k = None" by (simp add: map_of_to_dict)
  with None show ?thesis by (simp add: prio_of_def)
next
  case (Some d)
  from same_dict_lookup [OF assms Some] obtain d' where
    "map_of (contexts s') k = Some d'" "d'\<lparr>context := None\<rparr> = d\<lparr>context := None\<rparr>"
    by blast
  with Some stripped_fields(1) [of d' d] show ?thesis
    by (simp add: prio_of_def)
qed

lemma good_cands_same_dict:
  assumes "to_dict s' = to_dict s" and "good_cands s es"
  shows "good_cands s' es"
proof -
  have "\<exists>d. map_of (contexts s') (context_name e) = Some d \<and> tool_name e \<notin> hidden_tools d"
    if "e \<in> set es" for e
  proof -
    from assms(2) that obtain d where
      d: "map_of (contexts s) (context_name e) = Some d" "tool_name e \<notin> hidden_tools d"
      by (auto simp add: good_cands_def)
    from same_dict_lookup [OF assms(1) d(1)] obtain d' where
      "map_of (contexts s') (context_name e) = Some d'"
      "d'\<lparr>context := None\<rparr> = d\<lparr>context := None\<rparr>"
      by blast
    with d(2) stripped_fields(2) [of d' d] show ?thesis by simp
  qed
  moreover have "prio_of s' = prio_of s"
    using prio_of_same_dict [OF assms(1)] by (simp add: fun_eq_iff)
  ultimately show ?thesis
    using assms(2) by (simp add: good_cands_def)
qed

lemma memo_ok_same_dict:
  assumes "to_dict s' = to_dict s" and "tools s' = tools s"
    and "tool_conflicts s' = tool_conflicts s" and "memo_ok s"
  shows "memo_ok s'"
  using assms good_cands_same_dict [OF assms(1)]
  by (auto simp add: memo_ok_def)

lemma wf_suite_same_dict:
  assumes "to_dict s' = to_dict s" and "wf_suite s"
  shows "wf_suite s'"
proof -
  have k: "map fst (to_dict x) = map fst (contexts x)" for x
    by (simp add: to_dict_def comp_def case_prod_beta)
  have n: "list_all (\<lambda>(k, d). name d = k) (to_dict x) = list_all (\<lambda>(k, d). name d = k) (contexts x)"
    for x
    by (simp add: to_dict_def list_all_iff case_prod_beta)
  from assms(2) have "distinct (map fst (to_dict s))" "list_all (\<lambda>(k, d). name d = k) (to_dict s)"
    by (simp_all add: wf_suite_def k n)
  then have "distinct (map fst (to_dict s'))" "list_all (\<lambda>(k, d). name d = k) (to_dict s')"
    using assms(1) by simp_all
  then show ?thesis
    by (simp add: wf_suite_def k n)
qed

lemma wf_lookup:
  assumes "wf_suite s" and "(k, d) \<in> set (contexts s)"
  shows "map_of (contexts s) k = Some d" and "name d = k"
  using assms by (auto simp add: wf_suite_def list_all_iff)

lemma wf_lookup_name:
  assumes "wf_suite s" and "map_of (contexts s) k = Some d"
  shows "name d = k"
  using assms by (auto simp add: wf_suite_def list_all_iff dest: map_of_SomeD)

lemma tool_entries_member:
  assumes "e \<in> set (tool_entries d c)"
  shows "context_name e = name d" and "tool_name e \<notin> hidden_tools d"
    and "tool_alias e = final_alias d (tool_name e)"
    and "\<exists>ts. (variant e, ts) \<in> set (context_tools c) \<and> tool_name e \<in> set ts"
  using assms by (auto simp add: tool_entries_def)

lemma in_concat_map: "x \<in> set xs \<Longrightarrow> y \<in> set (f x) \<Longrightarrow> y \<in> set (concat (map f xs))"
  by auto

lemma tool_entries_intro:
  assumes "(v, ts) \<in> set (context_tools c)" and "t \<in> set ts" and "t \<notin> hidden_tools d"
  shows "\<lparr>tool_name = t, tool_alias = final_alias d t, context_name = name d, variant = v\<rparr>
           \<in> set (tool_entries d c)"
  unfolding tool_entries_def
proof (rule in_concat_map [OF assms(1)])
  show "\<lparr>tool_name = t, tool_alias = final_alias d t, context_name = name d, variant = v\<rparr>
      \<in> set (case (v, ts) of (v, ts) \<Rightarrow>
            map (\<lambda>t. \<lparr>tool_name = t, tool_alias = final_alias d t,
                       context_name = name d, variant = v\<rparr>)
              (filter (\<lambda>t. t \<notin> hidden_tools d) ts))"
    using assms(2,3) by simp
qed

lemma sorted_wrt_constant:
  "\<forall>e \<in> set xs. g e = (k :: int) \<Longrightarrow> sorted_wrt (\<lambda>x y. g y \<le> g x) xs"
  by (induction xs) auto

lemma sorted_wrt_blocks:
  assumes "\<forall>p \<in> set ps. \<forall>e \<in> set (F p). g e = h p"
    and "sorted_wrt (\<lambda>p q. h q \<le> (h p :: int)) ps"
  shows "sorted_wrt (\<lambda>x y. g y \<le> g x) (concat (map F ps))"
  using assms
proof (induction ps)
  case Nil
  then show ?case by simp
next
  case (Cons p ps)
  have "sorted_wrt (\<lambda>x y. g y \<le> g x) (F p)"
    using Cons.prems(1) by (intro sorted_wrt_constant [where k = "h p"]) simp
  moreover have "sorted_wrt (\<lambda>x y. g y \<le> g x) (concat (map F ps))"
    using Cons by simp
  moreover have "g y \<le> g x" if "x \<in> set (F p)" "y \<in> set (concat (map F ps))" for x y
  proof -
    from that(2) obtain q where q: "q \<in> set ps" "y \<in> set (F q)" by auto
    then have "g y = h q" "g x = h p" using Cons.prems(1) that(1) by simp_all
    moreover have "h q \<le> h p" using Cons.prems(2) q(1) by simp
    ultimately show ?thesis by simp
  qed
  ultimately show ?case
    by (simp add: sorted_wrt_append)
qed

lemma sorted_contexts_descending:
  "sorted_wrt (\<lambda>d d'. priority d' \<le> priority d) (rev (u_sorted_contexts s))"
proof -
  have "sorted (map priority (u_sorted_contexts s))"
    by (simp add: u_sorted_contexts_def)
  then have "sorted_wrt (\<lambda>d d'. priority d \<le> priority d') (u_sorted_contexts s)"
    by (simp add: sorted_wrt_map)
  then show ?thesis
    by (simp add: sorted_wrt_rev)
qed

lemma good_cands_candidates:
  assumes wf: "wf_suite s" and pre: "rev (u_sorted_contexts s) = map fst ps @ rest"
  shows "good_cands s (candidates ps)"
proof -
  have mem: "map_of (contexts s) (name d) = Some d" if "d \<in> set (map fst ps)" for d
  proof -
    from that pre have "d \<in> set (rev (u_sorted_contexts s))" by simp
    then have "d \<in> snd ` set (contexts s)"
      by (simp add: u_sorted_contexts_def)
    then obtain k where "(k, d) \<in> set (contexts s)" by force
    with wf_lookup [OF wf this] show ?thesis by simp
  qed
  have pr: "prio_of s (context_name e) = priority (fst p)"
    if "p \<in> set ps" "e \<in> set (case p of (d, c) \<Rightarrow> tool_entries d c)" for p e
  proof -
    obtain d c where p: "p = (d, c)" by (cases p)
    with that have "context_name e = name d"
      by (simp add: tool_entries_member(1))
    moreover have "map_of (contexts s) (name d) = Some d"
      using mem that(1) p by force
    ultimately show ?thesis
      using p by (simp add: prio_of_def)
  qed
  have "sorted_wrt (\<lambda>d d'. priority d' \<le> priority d) (map fst ps)"
    using sorted_contexts_descending [of s] pre by (simp add: sorted_wrt_append)
  then have "sorted_wrt (\<lambda>p q. priority (fst q) \<le> priority (fst p)) ps"
    by (simp add: sorted_wrt_map)
  with pr have "sorted_wrt (\<lambda>e e'. prio_of s (context_name e') \<le> prio_of s (context_name e))
                  (concat (map (\<lambda>(d, c). tool_entries d c) ps))"
    by (intro sorted_wrt_blocks [where h = "\<lambda>p. priority (fst p)"]) auto
  moreover have "\<exists>d. map_of (contexts s) (context_name e) = Some d \<and> tool_name e \<notin> hidden_tools d"
    if "e \<in> set (candidates ps)" for e
  proof -
    from that obtain d c where dc: "(d, c) \<in> set ps" "e \<in> set (tool_entries d c)"
      by (auto simp add: candidates_def)
    then have "context_name e = name d" "tool_name e \<notin> hidden_tools d"
      by (simp_all add: tool_entries_member)
    moreover have "map_of (contexts s) (name d) = Some d"
      using mem dc(1) by force
    ultimately show ?thesis by simp
  qed
  ultimately show ?thesis
    by (simp add: good_cands_def candidates_def)
qed

lemma u_update_tools_fresh:
  assumes "tools s = None" and "u_update_tools fs s = (r, s')"
  shows "\<exists>ps rest T C. tools s' = Some T \<and> tool_conflicts s' = Some C \<and>
           represents (candidates ps) (T, C) \<and>
           rev (u_sorted_contexts s) = map fst ps @ rest \<and> (r = Inr () \<longrightarrow> rest = []) \<and>
           (\<forall>(d, c) \<in> set ps. \<exists>d'. map_of (contexts s') (name d) = Some d' \<and> context d' = Some c) \<and>
           to_dict s' = to_dict s \<and> load_path s' = load_path s \<and>
           next_priority s' = next_priority s"
proof -
  obtain x T C s1 where
    loop: "update_loop fs (rev (u_sorted_contexts s)) ([], []) s = (x, (T, C), s1)"
    by (cases "update_loop fs (rev (u_sorted_contexts s)) ([], []) s") auto
  with assms have r: "r = (case x of None \<Rightarrow> Inr () | Some e \<Rightarrow> Inl e)"
    and s': "s' = s1\<lparr>tools := Some T, tool_conflicts := Some C\<rparr>"
    by (simp_all add: u_update_tools_def)
  from update_loop_represents [OF loop represents_Nil] obtain ps rest where
    ps: "represents (candidates ps) (T, C)" "cache_ext s s1"
      "rev (u_sorted_contexts s) = map fst ps @ rest" "x = None \<longrightarrow> rest = []"
      "\<forall>(d, c) \<in> set ps. \<exists>d'. map_of (contexts s1) (name d) = Some d' \<and> context d' = Some c"
    by auto
  have "r = Inr () \<longrightarrow> rest = []"
    using r ps(4) by (cases x) simp_all
  moreover have "to_dict s' = to_dict s" "load_path s' = load_path s"
    "next_priority s' = next_priority s"
    using ps(2) by (simp_all add: s' cache_ext_def to_dict_def)
  moreover have "\<forall>(d, c) \<in> set ps. \<exists>d'. map_of (contexts s') (name d) = Some d' \<and> context d' = Some c"
    using ps(5) by (simp add: s')
  ultimately show ?thesis
    using ps(1,3) by (simp add: s') blast
qed

lemma u_update_tools_memo_ok:
  assumes "wf_suite s" and "memo_ok s" and "u_update_tools fs s = (r, s')"
  shows "wf_suite s' \<and> memo_ok s'"
proof (cases "tools s")
  case (Some T)
  with assms show ?thesis by (simp add: u_update_tools_def)
next
  case None
  from u_update_tools_fresh [OF None assms(3)] obtain ps rest T C where
    f: "tools s' = Some T" "tool_conflicts s' = Some C" "represents (candidates ps) (T, C)"
      "rev (u_sorted_contexts s) = map fst ps @ rest" "to_dict s' = to_dict s"
    by blast
  have "good_cands s' (candidates ps)"
    by (rule good_cands_same_dict [OF f(5) good_cands_candidates [OF assms(1) f(4)]])
  then have "memo_ok s'"
    using f(1,2,3) by (auto simp add: memo_ok_def)
  then show ?thesis
    using wf_suite_same_dict [OF f(5) assms(1)] by simp
qed

section \<open>Every operation keeps the invariants\<close>

lemma wf_suite_map_of:
  "wf_suite s \<longleftrightarrow>
     distinct (map fst (contexts s)) \<and> (\<forall>k d. map_of (contexts s) k = Some d \<longrightarrow> name d = k)"
  by (auto simp add: wf_suite_def list_all_iff dest: map_of_SomeD)

lemma wf_suite_update:
  assumes "wf_suite s" and "contexts s' = AList.update n d (contexts s)" and "name d = n"
  shows "wf_suite s'"
  using assms by (simp add: wf_suite_map_of distinct_update update_conv')

lemma wf_suite_delete:
  assumes "wf_suite s" and "contexts s' = AList.delete n (contexts s)"
  shows "wf_suite s'"
  using assms by (simp add: wf_suite_map_of distinct_delete delete_conv')

lemma memo_ok_flushed: "tools s = None \<Longrightarrow> tool_conflicts s = None \<Longrightarrow> memo_ok s"
  by (simp add: memo_ok_def)

lemma add_context_inv:
  assumes "wf_suite s" and "memo_ok s"
  shows "wf_suite (snd (add_context n c descr s)) \<and> memo_ok (snd (add_context n c descr s))"
proof (cases "map_of (contexts s) n \<noteq> None \<or> \<not> success c")
  case True
  then have "snd (add_context n c descr s) = s"
    by (auto simp add: add_context_def)
  with assms show ?thesis by simp
next
  case False
  let ?d = "\<lparr>name = n, context = Some c, tool_aliases = Map.empty, hidden_tools = {},
             description = descr, priority = next_priority s, prefix = None, suffix = None\<rparr>"
  let ?s = "snd (add_context n c descr s)"
  from False have "contexts ?s = AList.update n ?d (contexts s)"
    and "tools ?s = None" and "tool_conflicts ?s = None"
    by (simp_all add: add_context_def u_next_priority_def u_flush_tools_def set_data_def)
  then show ?thesis
    using wf_suite_update [OF assms(1), of ?s n ?d] memo_ok_flushed [of ?s] by simp
qed

lemma remove_context_inv:
  assumes "wf_suite s" and "memo_ok s"
  shows "wf_suite (snd (remove_context n s)) \<and> memo_ok (snd (remove_context n s))"
proof (cases "map_of (contexts s) n")
  case None
  then have "snd (remove_context n s) = s"
    by (simp add: remove_context_def u_context_def)
  with assms show ?thesis by simp
next
  case (Some d)
  let ?s = "snd (remove_context n s)"
  from Some have "contexts ?s = AList.delete n (contexts s)"
    and "tools ?s = None" and "tool_conflicts ?s = None"
    by (simp_all add: remove_context_def u_context_def u_flush_tools_def)
  then show ?thesis
    using wf_suite_delete [OF assms(1), of ?s n] memo_ok_flushed [of ?s] by simp
qed

text \<open>The operations that change one entry and drop the tables.\<close>

lemma change_entry_inv:
  assumes "wf_suite s" and "map_of (contexts s) n = Some d" and "name d' = name d"
    and "contexts s' = AList.update n d' (contexts s)"
    and "tools s' = None" and "tool_conflicts s' = None"
  shows "wf_suite s' \<and> memo_ok s'"
proof -
  have "name d' = n"
    using wf_lookup_name [OF assms(1,2)] assms(3) by simp
  then show ?thesis
    using wf_suite_update [OF assms(1) assms(4)] memo_ok_flushed [OF assms(5,6)] by simp
qed

lemma apply_operation_inv:
  assumes "wf_suite s" and "memo_ok s"
  shows "wf_suite (apply_operation x s) \<and> memo_ok (apply_operation x s)"
proof (cases x)
  case (Add_context n c descr)
  then show ?thesis using add_context_inv [OF assms] by simp
next
  case (Remove_context n)
  then show ?thesis using remove_context_inv [OF assms] by simp
next
  case (Set_context_prefix n p)
  show ?thesis
  proof (cases "map_of (contexts s) n")
    case None
    then show ?thesis
      using assms Set_context_prefix by (simp add: set_context_prefix_def u_context_def)
  next
    case (Some d)
    then show ?thesis
      using Set_context_prefix
      by (intro change_entry_inv [OF assms(1) Some, of "d\<lparr>prefix := Some p, priority := next_priority s\<rparr>"])
        (simp_all add: set_context_prefix_def u_context_def u_next_priority_def
          u_flush_tools_def set_data_def)
  qed
next
  case (Set_context_suffix n p)
  show ?thesis
  proof (cases "map_of (contexts s) n")
    case None
    then show ?thesis
      using assms Set_context_suffix by (simp add: set_context_suffix_def u_context_def)
  next
    case (Some d)
    then show ?thesis
      using Set_context_suffix
      by (intro change_entry_inv [OF assms(1) Some, of "d\<lparr>suffix := Some p, priority := next_priority s\<rparr>"])
        (simp_all add: set_context_suffix_def u_context_def u_next_priority_def
          u_flush_tools_def set_data_def)
  qed
next
  case (Bump_context n)
  show ?thesis
  proof (cases "map_of (contexts s) n")
    case None
    then show ?thesis
      using assms Bump_context by (simp add: bump_context_def u_context_def)
  next
    case (Some d)
    then show ?thesis
      using Bump_context
      by (intro change_entry_inv [OF assms(1) Some, of "d\<lparr>priority := next_priority s\<rparr>"])
        (simp_all add: bump_context_def u_context_def u_next_priority_def
          u_flush_tools_def set_data_def)
  qed
next
  case (Hide_tool cn t)
  show ?thesis
  proof (cases "map_of (contexts s) cn")
    case None
    then show ?thesis
      using assms Hide_tool by (simp add: hide_tool_def u_context_def)
  next
    case (Some d)
    show ?thesis
    proof (cases "t \<in> hidden_tools d")
      case True
      then show ?thesis
        using assms Hide_tool Some by (simp add: hide_tool_def u_context_def)
    next
      case False
      then show ?thesis
        using Hide_tool Some
        by (intro change_entry_inv [OF assms(1) Some, of "d\<lparr>hidden_tools := insert t (hidden_tools d)\<rparr>"])
          (simp_all add: hide_tool_def u_context_def u_flush_tools_def set_data_def)
    qed
  qed
next
  case (Unhide_tool cn t)
  show ?thesis
  proof (cases "map_of (contexts s) cn")
    case None
    then show ?thesis
      using assms Unhide_tool by (simp add: unhide_tool_def u_context_def)
  next
    case (Some d)
    show ?thesis
    proof (cases "t \<in> hidden_tools d")
      case False
      then show ?thesis
        using assms Unhide_tool Some by (simp add: unhide_tool_def u_context_def)
    next
      case True
      then show ?thesis
        using Unhide_tool Some
        by (intro change_entry_inv [OF assms(1) Some, of "d\<lparr>hidden_tools := hidden_tools d - {t}\<rparr>"])
          (simp_all add: unhide_tool_def u_context_def u_flush_tools_def set_data_def)
    qed
  qed
next
  case (Alias_tool cn t a)
  show ?thesis
  proof (cases "map_of (contexts s) cn")
    case None
    then show ?thesis
      using assms Alias_tool by (simp add: alias_tool_def u_context_def)
  next
    case (Some d)
    show ?thesis
    proof (cases "tool_aliases d t")
      case Some': (Some b)
      then show ?thesis
        using assms Alias_tool Some by (simp add: alias_tool_def u_context_def)
    next
      case None
      then show ?thesis
        using Alias_tool Some
        by (intro change_entry_inv [OF assms(1) Some, of "d\<lparr>tool_aliases := (tool_aliases d)(t \<mapsto> a)\<rparr>"])
          (simp_all add: alias_tool_def u_context_def u_flush_tools_def set_data_def)
    qed
  qed
next
  case (Dealias_tool cn t)
  show ?thesis
  proof (cases "map_of (contexts s) cn")
    case None
    then show ?thesis
      using assms Dealias_tool by (simp add: dealias_tool_def u_context_def)
  next
    case (Some d)
    show ?thesis
    proof (cases "tool_aliases d t")
      case None
      then show ?thesis
        using assms Dealias_tool Some by (simp add: dealias_tool_def u_context_def)
    next
      case Some': (Some b)
      then show ?thesis
        using Dealias_tool Some
        by (intro change_entry_inv [OF assms(1) Some, of "d\<lparr>tool_aliases := (tool_aliases d)(t := None)\<rparr>"])
          (simp_all add: dealias_tool_def u_context_def u_flush_tools_def set_data_def)
    qed
  qed
next
  case (Get_context fs n)
  obtain r s' where sc: "suite_context fs n s = (r, s')"
    by (cases "suite_context fs n s")
  from suite_context_cache_ext [OF sc] have "to_dict s' = to_dict s" "tools s' = tools s"
    "tool_conflicts s' = tool_conflicts s"
    by (simp_all add: cache_ext_def)
  then show ?thesis
    using Get_context sc wf_suite_same_dict [OF _ assms(1), of s']
      memo_ok_same_dict [OF _ _ _ assms(2), of s'] by simp
next
  case (Update_tools fs)
  obtain r s' where u: "u_update_tools fs s = (r, s')"
    by (cases "u_update_tools fs s")
  from u_update_tools_memo_ok [OF assms u] Update_tools u show ?thesis by simp
qed

lemma run_inv:
  assumes "wf_suite s" and "memo_ok s"
  shows "wf_suite (run ops s) \<and> memo_ok (run ops s)"
  using assms
proof (induction ops arbitrary: s)
  case Nil
  then show ?case by (simp add: run_def)
next
  case (Cons x ops)
  from apply_operation_inv [OF Cons.prems, of x] Cons.IH [of "apply_operation x s"]
  show ?case by (simp add: run_def)
qed

section \<open>A resolution that returns finds every exposed tool\<close>

lemma final_alias_stripped:
  assumes "d'\<lparr>context := None\<rparr> = d\<lparr>context := None\<rparr>"
  shows "final_alias d' t = final_alias d t"
  using stripped_fields(4,5,6) [OF assms] by (simp add: final_alias_def split: option.split)

lemma tool_entries_stripped:
  assumes "d'\<lparr>context := None\<rparr> = d\<lparr>context := None\<rparr>"
  shows "tool_entries d' c = tool_entries d c"
proof -
  have "final_alias d' = final_alias d"
    using final_alias_stripped [OF assms] by (simp add: fun_eq_iff)
  then show ?thesis
    using stripped_fields [OF assms] by (simp add: tool_entries_def)
qed

lemma tool_entries_iff:
  "e \<in> set (tool_entries d c) \<longleftrightarrow>
     (list_ex (\<lambda>(v, ts). v = variant e \<and> tool_name e \<in> set ts) (context_tools c) \<and>
      tool_name e \<notin> hidden_tools d \<and> tool_alias e = final_alias d (tool_name e) \<and>
      context_name e = name d)"
proof
  assume "e \<in> set (tool_entries d c)"
  from tool_entries_member [OF this] show
    "list_ex (\<lambda>(v, ts). v = variant e \<and> tool_name e \<in> set ts) (context_tools c) \<and>
      tool_name e \<notin> hidden_tools d \<and> tool_alias e = final_alias d (tool_name e) \<and>
      context_name e = name d"
    by (auto simp add: list_ex_iff)
next
  assume r: "list_ex (\<lambda>(v, ts). v = variant e \<and> tool_name e \<in> set ts) (context_tools c) \<and>
      tool_name e \<notin> hidden_tools d \<and> tool_alias e = final_alias d (tool_name e) \<and>
      context_name e = name d"
  then obtain ts where ts: "(variant e, ts) \<in> set (context_tools c)" "tool_name e \<in> set ts"
    by (auto simp add: list_ex_iff)
  have "e = \<lparr>tool_name = tool_name e, tool_alias = final_alias d (tool_name e),
             context_name = name d, variant = variant e\<rparr>"
    using r by simp
  with tool_entries_intro [OF ts] r show "e \<in> set (tool_entries d c)"
    by metis
qed

lemma resolve_complete:
  assumes wf: "wf_suite s" and fresh: "tools s = None"
    and upd: "u_update_tools fs s = (Inr (), s')"
  shows "\<exists>es T C. tools s' = Some T \<and> tool_conflicts s' = Some C \<and>
           represents es (T, C) \<and> good_cands s' es \<and> (\<forall>e. e \<in> set es \<longleftrightarrow> exposed s' e)"
proof -
  from u_update_tools_fresh [OF fresh upd] obtain ps T C where
    f: "tools s' = Some T" "tool_conflicts s' = Some C" "represents (candidates ps) (T, C)"
      "rev (u_sorted_contexts s) = map fst ps"
      "\<forall>(d, c) \<in> set ps. \<exists>d'. map_of (contexts s') (name d) = Some d' \<and> context d' = Some c"
      "to_dict s' = to_dict s"
    by auto
  have good: "good_cands s' (candidates ps)"
    using good_cands_same_dict [OF f(6) good_cands_candidates [OF wf, of ps "[]"]] f(4) by simp
  have wf': "wf_suite s'"
    by (rule wf_suite_same_dict [OF f(6) wf])
  have snap: "\<exists>d'. map_of (contexts s') (name d) = Some d' \<and> context d' = Some c \<and>
                d'\<lparr>context := None\<rparr> = d\<lparr>context := None\<rparr>"
    if "(d, c) \<in> set ps" for d c
  proof -
    from that f(4) have "d \<in> set (rev (u_sorted_contexts s))" by force
    then obtain k where "(k, d) \<in> set (contexts s)"
      by (force simp add: u_sorted_contexts_def)
    from wf_lookup [OF wf this] have "map_of (contexts s) (name d) = Some d" by simp
    from same_dict_lookup [OF f(6) this] obtain d' where
      d': "map_of (contexts s') (name d) = Some d'" "d'\<lparr>context := None\<rparr> = d\<lparr>context := None\<rparr>"
      by blast
    moreover from f(5) that obtain d2 where
      "map_of (contexts s') (name d) = Some d2" "context d2 = Some c"
      by blast
    ultimately show ?thesis by simp
  qed
  have "e \<in> set (candidates ps) \<longleftrightarrow> exposed s' e" for e
  proof
    assume "e \<in> set (candidates ps)"
    then obtain d c where dc: "(d, c) \<in> set ps" "e \<in> set (tool_entries d c)"
      by (auto simp add: candidates_def)
    from snap [OF dc(1)] obtain d' where
      d': "map_of (contexts s') (name d) = Some d'" "context d' = Some c"
        "d'\<lparr>context := None\<rparr> = d\<lparr>context := None\<rparr>"
      by blast
    have "e \<in> set (tool_entries d' c)"
      using dc(2) tool_entries_stripped [OF d'(3)] by simp
    then show "exposed s' e"
      using d'(1,2) stripped_fields(3) [OF d'(3)]
      by (simp add: tool_entries_iff exposed_def)
  next
    assume ex: "exposed s' e"
    then obtain d' c where
      d': "map_of (contexts s') (context_name e) = Some d'" "context d' = Some c"
      by (auto simp add: exposed_def split: option.splits)
    have n: "name d' = context_name e"
      by (rule wf_lookup_name [OF wf' d'(1)])
    have e: "e \<in> set (tool_entries d' c)"
      using ex d' n by (simp add: tool_entries_iff exposed_def)
    from same_dict_lookup [OF f(6) [symmetric] d'(1)] obtain d where
      d: "map_of (contexts s) (context_name e) = Some d"
        "d\<lparr>context := None\<rparr> = d'\<lparr>context := None\<rparr>"
      by blast
    then have "d \<in> set (rev (u_sorted_contexts s))"
      by (force simp add: u_sorted_contexts_def dest: map_of_SomeD)
    then obtain c0 where c0: "(d, c0) \<in> set ps"
      using f(4) by force
    from snap [OF c0] obtain d2 where
      "map_of (contexts s') (name d) = Some d2" "context d2 = Some c0"
      by blast
    moreover have "name d = context_name e"
      using stripped_fields(3) [OF d(2)] n by simp
    ultimately have "c0 = c"
      using d' by simp
    moreover have "e \<in> set (tool_entries d c)"
      using e tool_entries_stripped [OF d(2)] by simp
    ultimately show "e \<in> set (candidates ps)"
      using c0 by (auto simp add: candidates_def)
  qed
  with f(1,2,3) good show ?thesis by blast
qed

section \<open>Reading the tables\<close>

lemma find_filter:
  "find P xs = (case filter P xs of [] \<Rightarrow> None | x # _ \<Rightarrow> Some x)"
  by (induction xs) simp_all

lemma represents_winner:
  assumes "represents es (T, C)" and "map_of T a = Some w"
  shows "\<exists>l. filter (\<lambda>e. tool_alias e = a) es = w # l"
  using assms
  by (auto simp add: represents_def winner_of_def find_filter split: list.splits)

lemma represents_losers:
  assumes "represents es (T, C)" and "map_of C a = Some l"
  shows "\<exists>w. filter (\<lambda>e. tool_alias e = a) es = w # l \<and> l \<noteq> [] \<and> map_of T a = Some w"
proof -
  from assms have "losers_of es a = Some l"
    by (simp add: represents_def)
  then obtain w where w: "filter (\<lambda>e. tool_alias e = a) es = w # l" "l \<noteq> []"
    by (auto simp add: losers_of_def split: list.splits)
  then have "winner_of es a = Some w"
    by (simp add: winner_of_def find_filter)
  with assms(1) w show ?thesis
    by (simp add: represents_def)
qed

lemma represents_two:
  assumes "represents es (T, C)" and "filter (\<lambda>e. tool_alias e = a) es = w # x # l"
  shows "map_of T a = Some w" and "map_of C a = Some (x # l)"
  using assms by (simp_all add: represents_def winner_of_def losers_of_def find_filter)

lemma filter_member:
  assumes "filter P xs = ys"
  shows "set ys \<subseteq> set xs" and "\<forall>y \<in> set ys. P y"
  using assms by auto

lemma good_cands_filter:
  assumes "good_cands s es" and "filter P es = w # l"
  shows "sorted_wrt (\<lambda>e e'. prio_of s (context_name e') \<le> prio_of s (context_name e)) l"
    and "\<forall>e \<in> set l. prio_of s (context_name e) \<le> prio_of s (context_name w)"
proof -
  from assms(1) have
    "sorted_wrt (\<lambda>e e'. prio_of s (context_name e') \<le> prio_of s (context_name e)) (filter P es)"
    by (simp add: good_cands_def sorted_wrt_filter)
  then have "sorted_wrt (\<lambda>e e'. prio_of s (context_name e') \<le> prio_of s (context_name e)) (w # l)"
    using assms(2) by simp
  then show "sorted_wrt (\<lambda>e e'. prio_of s (context_name e') \<le> prio_of s (context_name e)) l"
    and "\<forall>e \<in> set l. prio_of s (context_name e) \<le> prio_of s (context_name w)"
    by simp_all
qed

lemma get_tools_memo:
  assumes "wf_suite s" and "memo_ok s" and "get_tools fs s = (Inr (Some T), s')"
  shows "\<exists>C es. tool_conflicts s' = Some C \<and> represents es (T, C) \<and> good_cands s' es"
proof -
  from assms(3) have u: "u_update_tools fs s = (Inr (), s')" and t: "tools s' = Some T"
    by (auto simp add: get_tools_def split: prod.splits sum.splits)
  from u_update_tools_memo_ok [OF assms(1,2) u] have "memo_ok s'" by simp
  with t show ?thesis
    by (auto simp add: memo_ok_def)
qed


section \<open>Priorities along a sequence of operations\<close>

lemma mutation_shape_same: "mutation_shape s s"
  by (simp add: mutation_shape_def)

lemma apply_operation_shape:
  assumes "\<forall>fs. x \<noteq> Update_tools fs"
  shows "mutation_shape s (apply_operation x s)"
proof (cases x)
  case (Add_context n c descr)
  show ?thesis
  proof (cases "map_of (contexts s) n \<noteq> None \<or> \<not> success c")
    case True
    then have "apply_operation x s = s"
      using Add_context by (auto simp add: add_context_def)
    then show ?thesis by (simp add: mutation_shape_same)
  next
    case False
    let ?d = "\<lparr>name = n, context = Some c, tool_aliases = Map.empty, hidden_tools = {},
               description = descr, priority = next_priority s, prefix = None, suffix = None\<rparr>"
    from False Add_context have "contexts (apply_operation x s) = AList.update n ?d (contexts s)"
      "next_priority (apply_operation x s) = next_priority s + 1"
      by (simp_all add: add_context_def u_next_priority_def u_flush_tools_def set_data_def)
    moreover have "priority ?d = next_priority s"
      "(case map_of (contexts s) n of None \<Rightarrow> context ?d \<noteq> None | Some d \<Rightarrow> context ?d = context d)"
      using False by simp_all
    ultimately show ?thesis
      unfolding mutation_shape_def by blast
  qed
next
  case (Remove_context n)
  then show ?thesis
    by (cases "map_of (contexts s) n")
      (auto simp add: mutation_shape_def remove_context_def u_context_def u_flush_tools_def)
next
  case (Set_context_prefix n p)
  show ?thesis
  proof (cases "map_of (contexts s) n")
    case None
    then show ?thesis
      using Set_context_prefix
      by (simp add: mutation_shape_def set_context_prefix_def u_context_def)
  next
    case (Some d)
    let ?d = "d\<lparr>prefix := Some p, priority := next_priority s\<rparr>"
    from Some Set_context_prefix
    have "contexts (apply_operation x s) = AList.update n ?d (contexts s)"
      "next_priority (apply_operation x s) = next_priority s + 1"
      by (simp_all add: set_context_prefix_def u_context_def u_next_priority_def
          u_flush_tools_def set_data_def)
    moreover have "priority ?d = next_priority s"
      "(case map_of (contexts s) n of None \<Rightarrow> context ?d \<noteq> None | Some d \<Rightarrow> context ?d = context d)"
      using Some by simp_all
    ultimately show ?thesis
      unfolding mutation_shape_def by blast
  qed
next
  case (Set_context_suffix n p)
  show ?thesis
  proof (cases "map_of (contexts s) n")
    case None
    then show ?thesis
      using Set_context_suffix
      by (simp add: mutation_shape_def set_context_suffix_def u_context_def)
  next
    case (Some d)
    let ?d = "d\<lparr>suffix := Some p, priority := next_priority s\<rparr>"
    from Some Set_context_suffix
    have "contexts (apply_operation x s) = AList.update n ?d (contexts s)"
      "next_priority (apply_operation x s) = next_priority s + 1"
      by (simp_all add: set_context_suffix_def u_context_def u_next_priority_def
          u_flush_tools_def set_data_def)
    moreover have "priority ?d = next_priority s"
      "(case map_of (contexts s) n of None \<Rightarrow> context ?d \<noteq> None | Some d \<Rightarrow> context ?d = context d)"
      using Some by simp_all
    ultimately show ?thesis
      unfolding mutation_shape_def by blast
  qed
next
  case (Bump_context n)
  show ?thesis
  proof (cases "map_of (contexts s) n")
    case None
    then show ?thesis
      using Bump_context
      by (simp add: mutation_shape_def bump_context_def u_context_def)
  next
    case (Some d)
    let ?d = "d\<lparr>priority := next_priority s\<rparr>"
    from Some Bump_context
    have "contexts (apply_operation x s) = AList.update n ?d (contexts s)"
      "next_priority (apply_operation x s) = next_priority s + 1"
      by (simp_all add: bump_context_def u_context_def u_next_priority_def
          u_flush_tools_def set_data_def)
    moreover have "priority ?d = next_priority s"
      "(case map_of (contexts s) n of None \<Rightarrow> context ?d \<noteq> None | Some d \<Rightarrow> context ?d = context d)"
      using Some by simp_all
    ultimately show ?thesis
      unfolding mutation_shape_def by blast
  qed
next
  case (Hide_tool cn t)
  show ?thesis
  proof (cases "map_of (contexts s) cn")
    case None
    then show ?thesis
      using Hide_tool by (simp add: mutation_shape_def hide_tool_def u_context_def)
  next
    case (Some d)
    let ?d = "d\<lparr>hidden_tools := insert t (hidden_tools d)\<rparr>"
    have "contexts (apply_operation x s) = contexts s \<and>
            next_priority (apply_operation x s) = next_priority s \<or>
          contexts (apply_operation x s) = AList.update cn ?d (contexts s) \<and>
            next_priority (apply_operation x s) = next_priority s"
      using Some Hide_tool
      by (simp add: hide_tool_def u_context_def u_flush_tools_def set_data_def)
    moreover have "priority ?d = priority d" "context d \<noteq> None \<longrightarrow> context ?d \<noteq> None"
      by simp_all
    ultimately show ?thesis
      unfolding mutation_shape_def using Some by blast
  qed
next
  case (Unhide_tool cn t)
  show ?thesis
  proof (cases "map_of (contexts s) cn")
    case None
    then show ?thesis
      using Unhide_tool by (simp add: mutation_shape_def unhide_tool_def u_context_def)
  next
    case (Some d)
    let ?d = "d\<lparr>hidden_tools := hidden_tools d - {t}\<rparr>"
    have "contexts (apply_operation x s) = contexts s \<and>
            next_priority (apply_operation x s) = next_priority s \<or>
          contexts (apply_operation x s) = AList.update cn ?d (contexts s) \<and>
            next_priority (apply_operation x s) = next_priority s"
      using Some Unhide_tool
      by (simp add: unhide_tool_def u_context_def u_flush_tools_def set_data_def)
    moreover have "priority ?d = priority d" "context d \<noteq> None \<longrightarrow> context ?d \<noteq> None"
      by simp_all
    ultimately show ?thesis
      unfolding mutation_shape_def using Some by blast
  qed
next
  case (Alias_tool cn t a)
  show ?thesis
  proof (cases "map_of (contexts s) cn")
    case None
    then show ?thesis
      using Alias_tool by (simp add: mutation_shape_def alias_tool_def u_context_def)
  next
    case (Some d)
    let ?d = "d\<lparr>tool_aliases := (tool_aliases d)(t \<mapsto> a)\<rparr>"
    have "contexts (apply_operation x s) = contexts s \<and>
            next_priority (apply_operation x s) = next_priority s \<or>
          contexts (apply_operation x s) = AList.update cn ?d (contexts s) \<and>
            next_priority (apply_operation x s) = next_priority s"
      using Some Alias_tool
      by (simp add: alias_tool_def u_context_def u_flush_tools_def set_data_def)
    moreover have "priority ?d = priority d" "context d \<noteq> None \<longrightarrow> context ?d \<noteq> None"
      by simp_all
    ultimately show ?thesis
      unfolding mutation_shape_def using Some by blast
  qed
next
  case (Dealias_tool cn t)
  show ?thesis
  proof (cases "map_of (contexts s) cn")
    case None
    then show ?thesis
      using Dealias_tool by (simp add: mutation_shape_def dealias_tool_def u_context_def)
  next
    case (Some d)
    let ?d = "d\<lparr>tool_aliases := (tool_aliases d)(t := None)\<rparr>"
    have "contexts (apply_operation x s) = contexts s \<and>
            next_priority (apply_operation x s) = next_priority s \<or>
          contexts (apply_operation x s) = AList.update cn ?d (contexts s) \<and>
            next_priority (apply_operation x s) = next_priority s"
      using Some Dealias_tool
      by (simp add: dealias_tool_def u_context_def u_flush_tools_def set_data_def)
    moreover have "priority ?d = priority d" "context d \<noteq> None \<longrightarrow> context ?d \<noteq> None"
      by simp_all
    ultimately show ?thesis
      unfolding mutation_shape_def using Some by blast
  qed
next
  case (Get_context fs n)
  obtain r s' where sc: "suite_context fs n s = (r, s')"
    by (cases "suite_context fs n s")
  from suite_context_cases [OF sc] show ?thesis
  proof
    assume "s' = s"
    then show ?thesis using Get_context sc by (simp add: mutation_shape_same)
  next
    assume "\<exists>d c. r = Inr c \<and> map_of (contexts s) n = Some d \<and> context d = None \<and>
              s' = set_data n (d\<lparr>context := Some c\<rparr>) s"
    then obtain d c where d: "map_of (contexts s) n = Some d"
      and s': "s' = set_data n (d\<lparr>context := Some c\<rparr>) s"
      by blast
    have "contexts s' = AList.update n (d\<lparr>context := Some c\<rparr>) (contexts s)"
      "next_priority s' = next_priority s" "priority (d\<lparr>context := Some c\<rparr>) = priority d"
      "context d \<noteq> None \<longrightarrow> context (d\<lparr>context := Some c\<rparr>) \<noteq> None"
      by (simp_all add: s' set_data_def)
    with d have "mutation_shape s s'"
      unfolding mutation_shape_def by blast
    then show ?thesis using Get_context sc by simp
  qed
next
  case (Update_tools fs)
  with assms show ?thesis by simp
qed

lemma update_loop_preserves:
  assumes shape: "\<And>s s'. mutation_shape s s' \<Longrightarrow> P s \<Longrightarrow> P s'"
    and "P s" and "update_loop fs ds tc s = (r, tc', s')"
  shows "P s'"
  using assms(2,3)
proof (induction ds arbitrary: tc s)
  case Nil
  then show ?case by simp
next
  case (Cons d ds)
  obtain x s1 where sc: "suite_context fs (name d) s = (x, s1)"
    by (cases "suite_context fs (name d) s")
  have "mutation_shape s (apply_operation (Get_context fs (name d)) s)"
    by (rule apply_operation_shape) simp
  then have P1: "P s1"
    using shape Cons.prems(1) sc by simp
  show ?case
  proof (cases x)
    case (Inl e)
    with Cons.prems(2) sc P1 show ?thesis by simp
  next
    case (Inr c)
    with Cons.prems(2) sc
    have "update_loop fs ds (add_context_tools d c tc) s1 = (r, tc', s')" by simp
    from Cons.IH [OF P1 this] show ?thesis .
  qed
qed

lemma apply_operation_preserves:
  assumes shape: "\<And>s s'. mutation_shape s s' \<Longrightarrow> P s \<Longrightarrow> P s'"
    and tbl: "\<And>s T C. P s \<Longrightarrow> P (s\<lparr>tools := T, tool_conflicts := C\<rparr>)"
    and "P s"
  shows "P (apply_operation x s)"
proof (cases "\<exists>fs. x = Update_tools fs")
  case False
  then show ?thesis
    using shape [OF apply_operation_shape assms(3)] by simp
next
  case True
  then obtain fs where x: "x = Update_tools fs" by blast
  show ?thesis
  proof (cases "tools s")
    case (Some T)
    then show ?thesis using x assms(3) by (simp add: u_update_tools_def)
  next
    case None
    obtain r T C s1 where
      loop: "update_loop fs (rev (u_sorted_contexts s)) ([], []) s = (r, (T, C), s1)"
      by (cases "update_loop fs (rev (u_sorted_contexts s)) ([], []) s") auto
    have "P s1"
      by (rule update_loop_preserves [where P = P, OF shape assms(3) loop])
    then show ?thesis
      using x None loop tbl by (simp add: u_update_tools_def)
  qed
qed

lemma run_preserves:
  assumes shape: "\<And>s s'. mutation_shape s s' \<Longrightarrow> P s \<Longrightarrow> P s'"
    and tbl: "\<And>s T C. P s \<Longrightarrow> P (s\<lparr>tools := T, tool_conflicts := C\<rparr>)"
    and "P s"
  shows "P (run ops s)"
  using assms(3)
proof (induction ops arbitrary: s)
  case Nil
  then show ?case by (simp add: run_def)
next
  case (Cons x ops)
  have "P (apply_operation x s)"
    by (rule apply_operation_preserves [OF shape tbl Cons.prems])
  from Cons.IH [OF this] show ?case by (simp add: run_def)
qed

lemma set_update_subset: "set (AList.update k v al) \<subseteq> insert (k, v) (set al)"
  by (induction al) auto

lemma map_update_same_value:
  "map_of al n = Some d \<Longrightarrow> g (n, d') = g (n, d) \<Longrightarrow> map g (AList.update n d' al) = map g al"
  by (induction al) (auto split: if_splits)

lemma distinct_update_fresh:
  "distinct (map g al) \<Longrightarrow> g (n, d') \<notin> g ` set al \<Longrightarrow> distinct (map g (AList.update n d' al))"
proof (induction al)
  case Nil
  then show ?case by simp
next
  case (Cons a al)
  obtain k v where a: "a = (k, v)" by (cases a)
  show ?case
  proof (cases "k = n")
    case True
    with Cons.prems a show ?thesis by auto
  next
    case False
    have "g (k, v) \<notin> g ` set (AList.update n d' al)"
    proof
      assume "g (k, v) \<in> g ` set (AList.update n d' al)"
      then have "g (k, v) \<in> g ` insert (n, d') (set al)"
        using set_update_subset [of n d' al] by blast
      with Cons.prems a show False by auto
    qed
    with Cons a False show ?thesis by auto
  qed
qed

lemma clock_above_shape:
  assumes "mutation_shape s s'" and "clock_above s \<and> c \<le> next_priority s"
  shows "clock_above s' \<and> c \<le> next_priority s'"
proof -
  have old: "priority d < next_priority s" if "(k, d) \<in> set (contexts s)" for k d
    using assms(2) that by (auto simp add: clock_above_def list_all_iff)
  from assms(1) consider
    (same) "contexts s' = contexts s" "next_priority s' = next_priority s"
  | (del) n where "contexts s' = AList.delete n (contexts s)" "next_priority s' = next_priority s"
  | (upd) n d d' where "map_of (contexts s) n = Some d"
      "contexts s' = AList.update n d' (contexts s)" "priority d' = priority d"
      "next_priority s' = next_priority s"
  | (new) n d' where "contexts s' = AList.update n d' (contexts s)"
      "priority d' = next_priority s" "next_priority s' = next_priority s + 1"
    unfolding mutation_shape_def by blast
  then show ?thesis
  proof cases
    case same
    with assms(2) show ?thesis by (simp add: clock_above_def)
  next
    case del
    with assms(2) old show ?thesis
      by (auto simp add: clock_above_def list_all_iff AList.delete_eq)
  next
    case upd
    have "priority x < next_priority s" if "(k, x) \<in> set (AList.update n d' (contexts s))" for k x
    proof -
      from that set_update_subset [of n d' "contexts s"]
      have "(k, x) = (n, d') \<or> (k, x) \<in> set (contexts s)" by blast
      then show ?thesis
        using old upd(1,3) by (auto dest: map_of_SomeD)
    qed
    with upd assms(2) show ?thesis
      by (auto simp add: clock_above_def list_all_iff)
  next
    case new
    have "priority x < next_priority s + 1" if "(k, x) \<in> set (AList.update n d' (contexts s))" for k x
    proof -
      from that set_update_subset [of n d' "contexts s"]
      have "(k, x) = (n, d') \<or> (k, x) \<in> set (contexts s)" by blast
      then show ?thesis
        using old new(2) by force
    qed
    with new assms(2) show ?thesis
      by (auto simp add: clock_above_def list_all_iff)
  qed
qed

lemma distinct_priorities_shape:
  assumes "mutation_shape s s'" and "clock_above s \<and> distinct_priorities s"
  shows "clock_above s' \<and> distinct_priorities s'"
proof -
  have cl: "clock_above s'"
    using clock_above_shape [OF assms(1), of "next_priority s"] assms(2) by simp
  have old: "priority d < next_priority s" if "(k, d) \<in> set (contexts s)" for k d
    using assms(2) that by (auto simp add: clock_above_def list_all_iff)
  from assms(1) consider
    (same) "contexts s' = contexts s"
  | (del) n where "contexts s' = AList.delete n (contexts s)"
  | (upd) n d d' where "map_of (contexts s) n = Some d"
      "contexts s' = AList.update n d' (contexts s)" "priority d' = priority d"
  | (new) n d' where "contexts s' = AList.update n d' (contexts s)"
      "priority d' = next_priority s"
    unfolding mutation_shape_def by blast
  then have "distinct_priorities s'"
  proof cases
    case same
    with assms(2) show ?thesis by (simp add: distinct_priorities_def)
  next
    case del
    with assms(2) show ?thesis
      by (simp add: distinct_priorities_def AList.delete_eq distinct_map_filter)
  next
    case upd
    have "map (\<lambda>(k, d). priority d) (AList.update n d' (contexts s))
            = map (\<lambda>(k, d). priority d) (contexts s)"
      by (rule map_update_same_value [OF upd(1)]) (simp add: upd(3))
    with upd(2) assms(2) show ?thesis by (simp add: distinct_priorities_def)
  next
    case new
    have "(\<lambda>(k, d). priority d) (n, d') \<notin> (\<lambda>(k, d). priority d) ` set (contexts s)"
      using old new(2) by force
    from distinct_update_fresh [OF _ this] new(1) assms(2) show ?thesis
      by (simp add: distinct_priorities_def)
  qed
  with cl show ?thesis by simp
qed

lemma all_live_shape:
  assumes "mutation_shape s s'" and "all_live s"
  shows "all_live s'"
proof -
  have old: "context d \<noteq> None" if "(k, d) \<in> set (contexts s)" for k d
    using assms(2) that by (auto simp add: all_live_def list_all_iff)
  from assms(1) consider
    (same) "contexts s' = contexts s"
  | (del) n where "contexts s' = AList.delete n (contexts s)"
  | (upd) n d d' where "map_of (contexts s) n = Some d"
      "contexts s' = AList.update n d' (contexts s)" "context d \<noteq> None \<longrightarrow> context d' \<noteq> None"
  | (new) n d' where "contexts s' = AList.update n d' (contexts s)"
      "(case map_of (contexts s) n of None \<Rightarrow> context d' \<noteq> None | Some d \<Rightarrow> context d' = context d)"
    unfolding mutation_shape_def by blast
  then show ?thesis
  proof cases
    case same
    with assms(2) show ?thesis by (simp add: all_live_def)
  next
    case del
    with old show ?thesis
      by (auto simp add: all_live_def list_all_iff AList.delete_eq)
  next
    case upd
    have "context d' \<noteq> None"
      using upd(1,3) old by (auto dest: map_of_SomeD)
    with old set_update_subset [of n d' "contexts s"] upd(2) show ?thesis
      by (auto simp add: all_live_def list_all_iff)
  next
    case new
    have "context d' \<noteq> None"
      using new(2) old by (auto split: option.splits dest: map_of_SomeD)
    with old set_update_subset [of n d' "contexts s"] new(1) show ?thesis
      by (auto simp add: all_live_def list_all_iff)
  qed
qed

lemma run_clock:
  assumes "clock_above s"
  shows "clock_above (run ops s)" and "next_priority s \<le> next_priority (run ops s)"
proof -
  let ?P = "\<lambda>x. clock_above x \<and> next_priority s \<le> next_priority x"
  have "?P (run ops s)"
  proof (rule run_preserves [where P = ?P])
    show "?P s'" if "mutation_shape x s'" "?P x" for x s'
      using clock_above_shape [OF that] .
    show "?P (x\<lparr>tools := T, tool_conflicts := C\<rparr>)" if "?P x" for x T C
      using that by (simp add: clock_above_def)
    show "?P s" using assms by simp
  qed
  then show "clock_above (run ops s)" and "next_priority s \<le> next_priority (run ops s)"
    by simp_all
qed

lemma run_distinct_priorities:
  assumes "clock_above s" and "distinct_priorities s"
  shows "distinct_priorities (run ops s)"
proof -
  let ?P = "\<lambda>x. clock_above x \<and> distinct_priorities x"
  have "?P (run ops s)"
  proof (rule run_preserves [where P = ?P])
    show "?P s'" if "mutation_shape x s'" "?P x" for x s'
      using distinct_priorities_shape [OF that] .
    show "?P (x\<lparr>tools := T, tool_conflicts := C\<rparr>)" if "?P x" for x T C
      using that by (simp add: clock_above_def distinct_priorities_def)
    show "?P s" using assms by simp
  qed
  then show ?thesis by simp
qed

lemma run_all_live:
  assumes "all_live s"
  shows "all_live (run ops s)"
proof (rule run_preserves [where P = all_live])
  show "all_live s'" if "mutation_shape x s'" "all_live x" for x s'
    using all_live_shape [OF that] .
  show "all_live (x\<lparr>tools := T, tool_conflicts := C\<rparr>)" if "all_live x" for x T C
    using that by (simp add: all_live_def)
  show "all_live s" using assms .
qed

lemma assigned_priority_clock:
  assumes "assigned_priority x s = Some p"
  shows "p = next_priority s \<and> next_priority (apply_operation x s) = p + 1"
proof (cases x)
  case (Add_context n c descr)
  with assms show ?thesis
    by (auto simp add: add_context_def u_next_priority_def u_flush_tools_def set_data_def
        update_conv' split: if_splits)
next
  case (Set_context_prefix n q)
  with assms show ?thesis
    by (cases "map_of (contexts s) n")
      (auto simp add: set_context_prefix_def u_context_def u_next_priority_def
        u_flush_tools_def set_data_def update_conv')
next
  case (Set_context_suffix n q)
  with assms show ?thesis
    by (cases "map_of (contexts s) n")
      (auto simp add: set_context_suffix_def u_context_def u_next_priority_def
        u_flush_tools_def set_data_def update_conv')
next
  case (Bump_context n)
  with assms show ?thesis
    by (cases "map_of (contexts s) n")
      (auto simp add: bump_context_def u_context_def u_next_priority_def
        u_flush_tools_def set_data_def update_conv')
qed (use assms in simp_all)

lemma run_Cons: "run (x # xs) s = run xs (apply_operation x s)"
  by (simp add: run_def)

lemma assigned_priorities_increasing:
  assumes "clock_above s"
  shows "sorted_wrt (<) (assigned_priorities ops s) \<and>
         (\<forall>p \<in> set (assigned_priorities ops s). next_priority s \<le> p \<and> p < next_priority (run ops s))"
  using assms
proof (induction ops arbitrary: s)
  case Nil
  then show ?case by simp
next
  case (Cons x ops)
  let ?s1 = "apply_operation x s"
  have s1: "clock_above ?s1" "next_priority s \<le> next_priority ?s1"
    using run_clock [OF Cons.prems, of "[x]"] by (simp_all add: run_def)
  from Cons.IH [OF s1(1)] have
    ih: "sorted_wrt (<) (assigned_priorities ops ?s1)"
      "\<forall>p \<in> set (assigned_priorities ops ?s1). next_priority ?s1 \<le> p \<and> p < next_priority (run ops ?s1)"
    by simp_all
  have mono: "next_priority ?s1 \<le> next_priority (run ops ?s1)"
    by (rule run_clock(2) [OF s1(1)])
  show ?case
  proof (cases "assigned_priority x s")
    case None
    with ih s1(2) show ?thesis
      by (auto simp add: run_Cons)
  next
    case (Some p)
    from assigned_priority_clock [OF Some] have
      p: "p = next_priority s" "next_priority ?s1 = p + 1"
      by simp_all
    have "\<forall>q \<in> set (assigned_priorities ops ?s1). p < q"
      using ih(2) p(2) by auto
    moreover have "p < next_priority (run ops ?s1)"
      using mono p(2) by simp
    ultimately show ?thesis
      using Some ih s1(2) p(1) by (auto simp add: run_Cons)
  qed
qed

lemma from_dict_clock:
  assumes "from_dict dict = Inr s"
  shows "contexts s = dict" and "dict \<noteq> []"
    and "next_priority s = Max (set (map (\<lambda>(k, x). priority x) dict)) + 1"
    and "clock_above s" and "tools s = None" and "tool_conflicts s = None"
    and "load_path s = None"
proof -
  from assms have ne: "dict \<noteq> []"
    and s: "s = \<lparr>load_path = None, contexts = dict,
                 next_priority = Max (set (map (\<lambda>(k, x). priority x) dict)) + 1,
                 tools = None, tool_conflicts = None\<rparr>"
    by (auto simp add: from_dict_def split: if_splits)
  have "priority d < Max (set (map (\<lambda>(k, x). priority x) dict)) + 1" if "(k, d) \<in> set dict" for k d
  proof -
    from that have "priority d \<in> set (map (\<lambda>(k, x). priority x) dict)" by force
    then have "priority d \<le> Max (set (map (\<lambda>(k, x). priority x) dict))"
      by (intro Max_ge) simp_all
    then show ?thesis by simp
  qed
  then show "clock_above s"
    by (auto simp add: s clock_above_def list_all_iff)
  show "contexts s = dict" "dict \<noteq> []"
    "next_priority s = Max (set (map (\<lambda>(k, x). priority x) dict)) + 1"
    "tools s = None" "tool_conflicts s = None" "load_path s = None"
    using ne by (simp_all add: s)
qed

lemma load_from_dict:
  assumes "load path fs = Inr s"
  shows "\<exists>dict s0. map_of fs (path_join path ''suite.yaml'') = Some (SuiteYaml dict) \<and>
           from_dict dict = Inr s0 \<and> s = s0\<lparr>load_path := Some path\<rparr>"
  using assms
  by (auto simp add: load_def split: if_splits option.splits file_content.splits sum.splits)

section \<open>The files written by \<open>save\<close>\<close>

































lemmas eval_defs =
  run_def add_context_def remove_context_def set_context_prefix_def set_context_suffix_def
  bump_context_def hide_tool_def unhide_tool_def alias_tool_def dealias_tool_def
  u_context_def u_next_priority_def u_flush_tools_def set_data_def Suite_init_def
  suite_context_def u_update_tools_def u_sorted_contexts_def add_context_tools_def
  add_tool_def final_alias_def get_tools_def get_alias_conflicts_def
  get_conflicting_aliases_def wf_suite_def exposed_def prio_of_def Let_def tool_of_def
  ctx_maya_def ctx_nuke_def

section \<open>Evaluation of the examples\<close>

lemma suite_two_resolved:
  "fst (u_update_tools [] suite_two) = Inr ()"
  "tools (snd (u_update_tools [] suite_two))
     = Some [(''maya'', tool_of ''nuke'' ''maya'' ''maya'' ''nuke-9''),
             (''nuke'', tool_of ''nuke'' ''nuke'' ''nuke'' ''nuke-9'')]"
  "tool_conflicts (snd (u_update_tools [] suite_two))
     = Some [(''maya'', [tool_of ''maya'' ''maya'' ''maya'' ''maya-2015''])]"
  "contexts (snd (u_update_tools [] suite_two)) = contexts suite_two"
  by (simp_all add: suite_two_def eval_defs)

lemma Suite_init_fresh:
  "wf_suite Suite_init" "tools Suite_init = None" "tool_conflicts Suite_init = None"
  by (simp_all add: Suite_init_def wf_suite_def)

lemmas fs_defs =
  save_def load_def from_dict_def to_dict_def context_names_def write_wrappers_def
  create_forwarding_script_def ResolvedContext_save_def ResolvedContext_load_def
  write_file_def rmtree_def path_exists_def isfile_def is_under_def rstrip_slash_def
  path_join_def dirname_def

lemma fs_saved_eval:
  "fs_saved =
     [(''/s/suite.yaml'', SuiteYaml (to_dict suite_two)),
      (''/s/contexts/maya.rxt'', Rxt ctx_maya),
      (''/s/contexts/nuke.rxt'', Rxt ctx_nuke),
      (''/s/bin/maya'', ForwardingScript ''suite'' ''_FWD__invoke_suite_tool_alias'' ''nuke'' ''maya''),
      (''/s/bin/nuke'', ForwardingScript ''suite'' ''_FWD__invoke_suite_tool_alias'' ''nuke'' ''nuke'')]"
  by (simp add: fs_saved_def suite_two_def fs_defs eval_defs)

lemma suite_loaded_eval:
  "load ''/s'' fs_saved = Inr suite_loaded"
  "load_path suite_loaded = Some ''/s''"
  "map_option context (map_of (contexts suite_loaded) ''maya'') = Some None"
  "map_option context (map_of (contexts suite_loaded) ''nuke'') = Some None"
  by (simp_all add: suite_loaded_def fs_saved_eval suite_two_def fs_defs eval_defs)


section \<open>Priority decides the winner\<close>

text \<open>
  C1 (amended). Let a suite with distinct keys, each entry stored under its own name and
  no cached tables be resolved without an exception, and let \<open>eA\<close> and \<open>eB\<close> be tools
  that two contexts expose under the same final alias, the context of \<open>eA\<close> having the
  higher priority. Then the alias has a winner and a conflict list; \<open>eB\<close> is in the
  conflict list and is not the winner; the winner is an exposed tool of a context whose
  priority is at least that of \<open>eA\<close>'s context; \<open>eA\<close> is the winner or is in the
  conflict list; and \<open>eA\<close> is the winner when every other exposed tool with that alias
  belongs to a context of lower priority.
\<close>

theorem higher_priority_shadows_lower:
  assumes wf: "wf_suite s" and fresh: "tools s = None"
    and upd: "u_update_tools fs s = (Inr (), s')"
    and A: "exposed s' eA" and B: "exposed s' eB"
    and same: "tool_alias eB = tool_alias eA"
    and less: "prio_of s' (context_name eB) < prio_of s' (context_name eA)"
  shows "\<exists>T C w l. tools s' = Some T \<and> tool_conflicts s' = Some C \<and>
           map_of T (tool_alias eA) = Some w \<and> map_of C (tool_alias eA) = Some l \<and>
           eB \<in> set l \<and> w \<noteq> eB \<and> exposed s' w \<and>
           prio_of s' (context_name eA) \<le> prio_of s' (context_name w) \<and>
           (w = eA \<or> eA \<in> set l) \<and>
           ((\<forall>e. exposed s' e \<and> tool_alias e = tool_alias eA \<and> e \<noteq> eA \<longrightarrow>
                 prio_of s' (context_name e) < prio_of s' (context_name eA)) \<longrightarrow> w = eA)"
proof -
  from resolve_complete [OF wf fresh upd] obtain es T C where
    r: "tools s' = Some T" "tool_conflicts s' = Some C" "represents es (T, C)"
      "good_cands s' es" "\<And>e. e \<in> set es \<longleftrightarrow> exposed s' e"
    by blast
  let ?f = "filter (\<lambda>e. tool_alias e = tool_alias eA) es"
  have inA: "eA \<in> set ?f" and inB: "eB \<in> set ?f"
    using A B same r(5) by simp_all
  then obtain w l0 where f: "?f = w # l0"
    by (cases ?f) auto
  have le_w: "\<forall>e \<in> set l0. prio_of s' (context_name e) \<le> prio_of s' (context_name w)"
    by (rule good_cands_filter(2) [OF r(4) f])
  have wB: "w \<noteq> eB"
  proof
    assume "w = eB"
    with inA f le_w less show False by auto
  qed
  with inB f have Bl: "eB \<in> set l0" by simp
  then obtain x l1 where l0: "l0 = x # l1" by (cases l0) auto
  from represents_two [OF r(3) f [unfolded l0]]
  have T: "map_of T (tool_alias eA) = Some w" and C: "map_of C (tool_alias eA) = Some l0"
    by (simp_all add: l0)
  have wex: "exposed s' w" and wal: "tool_alias w = tool_alias eA"
    using filter_member [OF f] r(5) by auto
  have pw: "prio_of s' (context_name eA) \<le> prio_of s' (context_name w)"
    using inA f le_w by auto
  have A_or: "w = eA \<or> eA \<in> set l0"
    using inA f by auto
  have top: "w = eA"
    if "\<forall>e. exposed s' e \<and> tool_alias e = tool_alias eA \<and> e \<noteq> eA \<longrightarrow>
             prio_of s' (context_name e) < prio_of s' (context_name eA)"
  proof (rule ccontr)
    assume "w \<noteq> eA"
    with that wex wal have "prio_of s' (context_name w) < prio_of s' (context_name eA)"
      by blast
    with pw show False by simp
  qed
  from r(1,2) T C Bl wB wex pw A_or top show ?thesis by blast
qed

theorem higher_priority_shadows_lower_witness:
  "wf_suite suite_two \<and> tools suite_two = None \<and>
   u_update_tools [] suite_two = (Inr (), snd (u_update_tools [] suite_two)) \<and>
   exposed (snd (u_update_tools [] suite_two)) (tool_of ''nuke'' ''maya'' ''maya'' ''nuke-9'') \<and>
   exposed (snd (u_update_tools [] suite_two)) (tool_of ''maya'' ''maya'' ''maya'' ''maya-2015'') \<and>
   prio_of (snd (u_update_tools [] suite_two)) ''maya''
     < prio_of (snd (u_update_tools [] suite_two)) ''nuke'' \<and>
   (\<exists>T C l. tools (snd (u_update_tools [] suite_two)) = Some T \<and>
      tool_conflicts (snd (u_update_tools [] suite_two)) = Some C \<and>
      map_of T ''maya'' = Some (tool_of ''nuke'' ''maya'' ''maya'' ''nuke-9'') \<and>
      map_of C ''maya'' = Some l \<and>
      tool_of ''maya'' ''maya'' ''maya'' ''maya-2015'' \<in> set l)"
proof -
  let ?s = "snd (u_update_tools [] suite_two)"
  let ?A = "tool_of ''nuke'' ''maya'' ''maya'' ''nuke-9''"
  let ?B = "tool_of ''maya'' ''maya'' ''maya'' ''maya-2015''"
  have wf: "wf_suite suite_two" and fresh: "tools suite_two = None"
    by (simp_all add: suite_two_def eval_defs)
  have upd: "u_update_tools [] suite_two = (Inr (), ?s)"
    using suite_two_resolved(1) by (simp add: prod_eq_iff)
  have A: "exposed ?s ?A" and B: "exposed ?s ?B"
    unfolding exposed_def suite_two_resolved(4) by (simp_all add: suite_two_def eval_defs)
  have same: "tool_alias ?B = tool_alias ?A"
    by (simp add: tool_of_def)
  have less: "prio_of ?s (context_name ?B) < prio_of ?s (context_name ?A)"
    unfolding prio_of_def suite_two_resolved(4) by (simp add: suite_two_def eval_defs)
  from higher_priority_shadows_lower [OF wf fresh upd A B same less]
  obtain T C w l where r: "tools ?s = Some T" "tool_conflicts ?s = Some C"
    "map_of T (tool_alias ?A) = Some w" "map_of C (tool_alias ?A) = Some l" "?B \<in> set l"
    by blast
  have "T = [(''maya'', ?A), (''nuke'', tool_of ''nuke'' ''nuke'' ''nuke'' ''nuke-9'')]"
    using r(1) suite_two_resolved(2) by simp
  then have "w = ?A"
    using r(3) by (simp add: tool_of_def)
  with r have "\<exists>T C l. tools ?s = Some T \<and> tool_conflicts ?s = Some C \<and>
      map_of T ''maya'' = Some ?A \<and> map_of C ''maya'' = Some l \<and> ?B \<in> set l"
    by (simp add: tool_of_def)
  moreover have "prio_of ?s ''maya'' < prio_of ?s ''nuke''"
    using less by (simp add: tool_of_def)
  ultimately show ?thesis
    using wf fresh upd A B by blast
qed

text \<open>
  The claim as stated fails when a third context has a higher priority than both.
  Three contexts expose \<open>maya\<close>: \<open>b\<close> (priority 1), \<open>a\<close> (priority 2) and \<open>c\<close>
  (priority 3). \<open>a\<close> has a higher priority than \<open>b\<close>, yet the winner is the tool of
  \<open>c\<close>, and the tool of \<open>a\<close> is in the conflict list.
\<close>

theorem winner_is_not_the_higher_of_two:
  "fst (u_update_tools [] suite_three) = Inr () \<and>
   exposed (snd (u_update_tools [] suite_three)) (tool_of ''a'' ''maya'' ''maya'' ''maya-2015'') \<and>
   exposed (snd (u_update_tools [] suite_three)) (tool_of ''b'' ''maya'' ''maya'' ''maya-2015'') \<and>
   prio_of (snd (u_update_tools [] suite_three)) ''b''
     < prio_of (snd (u_update_tools [] suite_three)) ''a'' \<and>
   tools (snd (u_update_tools [] suite_three))
     = Some [(''maya'', tool_of ''c'' ''maya'' ''maya'' ''maya-2015'')] \<and>
   tool_conflicts (snd (u_update_tools [] suite_three))
     = Some [(''maya'', [tool_of ''a'' ''maya'' ''maya'' ''maya-2015'',
                         tool_of ''b'' ''maya'' ''maya'' ''maya-2015''])] \<and>
   tool_of ''c'' ''maya'' ''maya'' ''maya-2015'' \<noteq> tool_of ''a'' ''maya'' ''maya'' ''maya-2015''"
  by (simp add: suite_three_def eval_defs)

section \<open>The arguments read by the alias script\<close>

text \<open>
  C2. \<open>Alias.run\<close> does not depend on the \<open>cli_args\<close> it was built with: it parses the
  command line of the process. With \<open>+i\<close> given to the object and \<open>x\<close> on the command
  line of the process, the tool is run with \<open>x\<close>; the same object in a process whose
  command line holds \<open>+i\<close> opens the interactive shell; and the forwarding function
  called with the arguments \<open>+i\<close> runs the tool with \<open>x\<close> as well.
\<close>

theorem alias_run_ignores_cli_args:
  "Alias_run parse exec ps (self\<lparr>self_cli_args := x\<rparr>)
     = Alias_run parse exec ps (self\<lparr>self_cli_args := y\<rparr>) \<and>
   self_cli_args alias_maya = [''+i''] \<and>
   Alias_run parse_known_args no_shell \<lparr>argv = [''/s/bin/maya'', ''x''], stdin_ready = False\<rparr>
       alias_maya
     = Inr (0, \<lparr>sh_command = Some [''maya'', ''x''], sh_stdin = False, sh_rcfile = None,
                sh_norc = False, sh_block = True\<rparr>, None) \<and>
   Alias_run parse_known_args no_shell \<lparr>argv = [''/s/bin/maya'', ''+i''], stdin_ready = False\<rparr>
       alias_maya
     = Inr (0, \<lparr>sh_command = None, sh_stdin = False, sh_rcfile = None,
                sh_norc = False, sh_block = True\<rparr>, Some ''nuke>'') \<and>
   u_FWD_invoke_suite_tool_alias parse_known_args no_shell fs_saved
       \<lparr>argv = [''/s/bin/maya'', ''x''], stdin_ready = False\<rparr>
       ''nuke'' ''maya'' ''/s/bin/maya'' [''+i'']
     = Inr (0, \<lparr>sh_command = Some [''maya'', ''x''], sh_stdin = False, sh_rcfile = None,
                sh_norc = False, sh_block = True\<rparr>, None)"
proof -
  have "Alias_run parse exec ps (self\<lparr>self_cli_args := x\<rparr>)
          = Alias_run parse exec ps (self\<lparr>self_cli_args := y\<rparr>)"
    by (simp add: Alias_run_def Let_def split: sum.split prod.split)
  then show ?thesis
    by (simp add: Alias_run_def u_FWD_invoke_suite_tool_alias_def alias_maya_def
        parse_known_args_def is_option_def no_shell_def Let_def fs_saved_eval fs_defs)
qed

section \<open>Aliasing a tool\<close>

text \<open>
  C3 (amended). For an entry of the suite, \<open>alias_tool\<close> leaves the suite unchanged, cached
  tables included, exactly when the tool already has an alias, whichever it is;
  otherwise it records the alias and drops the cached tables. \<open>dealias_tool\<close> on a tool
  that has no alias leaves the suite unchanged, so a later resolution returns the cached
  tables; otherwise it removes the alias and drops the cached tables.
\<close>

theorem alias_tool_dealias_tool_idempotent:
  assumes "map_of (contexts s) cn = Some d"
  shows "(tool_aliases d t \<noteq> None \<longrightarrow> alias_tool cn t a s = (Inr (), s)) \<and>
         (tool_aliases d t = None \<longrightarrow>
            (\<exists>s'. alias_tool cn t a s = (Inr (), s') \<and> s' \<noteq> s \<and>
               map_of (contexts s') cn = Some (d\<lparr>tool_aliases := (tool_aliases d)(t \<mapsto> a)\<rparr>) \<and>
               (\<forall>m. m \<noteq> cn \<longrightarrow> map_of (contexts s') m = map_of (contexts s) m) \<and>
               tools s' = None \<and> tool_conflicts s' = None \<and>
               next_priority s' = next_priority s \<and> load_path s' = load_path s)) \<and>
         (tool_aliases d t = None \<longrightarrow> dealias_tool cn t s = (Inr (), s)) \<and>
         (tool_aliases d t = None \<and> tools s \<noteq> None \<longrightarrow>
            u_update_tools fs (snd (dealias_tool cn t s)) = (Inr (), s)) \<and>
         (tool_aliases d t \<noteq> None \<longrightarrow>
            (\<exists>s'. dealias_tool cn t s = (Inr (), s') \<and> s' \<noteq> s \<and>
               map_of (contexts s') cn = Some (d\<lparr>tool_aliases := (tool_aliases d)(t := None)\<rparr>) \<and>
               (\<forall>m. m \<noteq> cn \<longrightarrow> map_of (contexts s') m = map_of (contexts s) m) \<and>
               tools s' = None \<and> tool_conflicts s' = None \<and>
               next_priority s' = next_priority s \<and> load_path s' = load_path s))"
proof -
  have changed: "s' \<noteq> s"
    if "map_of (contexts s') cn = Some d'" "tool_aliases d' t \<noteq> tool_aliases d t" for s' d'
    using that assms by auto
  have a1: "tool_aliases d t \<noteq> None \<longrightarrow> alias_tool cn t a s = (Inr (), s)"
    using assms by (simp add: alias_tool_def u_context_def)
  have d1: "tool_aliases d t = None \<longrightarrow> dealias_tool cn t s = (Inr (), s)"
    using assms by (simp add: dealias_tool_def u_context_def)
  have d3: "tool_aliases d t = None \<and> tools s \<noteq> None \<longrightarrow>
            u_update_tools fs (snd (dealias_tool cn t s)) = (Inr (), s)"
    using d1 by (simp add: u_update_tools_def)
  have a2: "\<exists>s'. alias_tool cn t a s = (Inr (), s') \<and> s' \<noteq> s \<and>
               map_of (contexts s') cn = Some (d\<lparr>tool_aliases := (tool_aliases d)(t \<mapsto> a)\<rparr>) \<and>
               (\<forall>m. m \<noteq> cn \<longrightarrow> map_of (contexts s') m = map_of (contexts s) m) \<and>
               tools s' = None \<and> tool_conflicts s' = None \<and>
               next_priority s' = next_priority s \<and> load_path s' = load_path s"
    if n: "tool_aliases d t = None"
  proof -
    let ?s = "u_flush_tools (set_data cn (d\<lparr>tool_aliases := (tool_aliases d)(t \<mapsto> a)\<rparr>) s)"
    have "alias_tool cn t a s = (Inr (), ?s)"
      using assms n by (simp add: alias_tool_def u_context_def)
    moreover have m: "map_of (contexts ?s) cn = Some (d\<lparr>tool_aliases := (tool_aliases d)(t \<mapsto> a)\<rparr>)"
      by (simp add: u_flush_tools_def set_data_def update_conv')
    moreover have "?s \<noteq> s"
      by (rule changed [OF m]) (simp add: n)
    moreover have "\<forall>m. m \<noteq> cn \<longrightarrow> map_of (contexts ?s) m = map_of (contexts s) m"
      "tools ?s = None" "tool_conflicts ?s = None" "next_priority ?s = next_priority s"
      "load_path ?s = load_path s"
      by (simp_all add: u_flush_tools_def set_data_def update_conv')
    ultimately show ?thesis by blast
  qed
  have d2: "\<exists>s'. dealias_tool cn t s = (Inr (), s') \<and> s' \<noteq> s \<and>
               map_of (contexts s') cn = Some (d\<lparr>tool_aliases := (tool_aliases d)(t := None)\<rparr>) \<and>
               (\<forall>m. m \<noteq> cn \<longrightarrow> map_of (contexts s') m = map_of (contexts s) m) \<and>
               tools s' = None \<and> tool_conflicts s' = None \<and>
               next_priority s' = next_priority s \<and> load_path s' = load_path s"
    if n: "tool_aliases d t \<noteq> None"
  proof -
    let ?s = "u_flush_tools (set_data cn (d\<lparr>tool_aliases := (tool_aliases d)(t := None)\<rparr>) s)"
    have "dealias_tool cn t s = (Inr (), ?s)"
      using assms n by (simp add: dealias_tool_def u_context_def)
    moreover have m: "map_of (contexts ?s) cn = Some (d\<lparr>tool_aliases := (tool_aliases d)(t := None)\<rparr>)"
      by (simp add: u_flush_tools_def set_data_def update_conv')
    moreover have "?s \<noteq> s"
      by (rule changed [OF m]) (use n in auto)
    moreover have "\<forall>m. m \<noteq> cn \<longrightarrow> map_of (contexts ?s) m = map_of (contexts s) m"
      "tools ?s = None" "tool_conflicts ?s = None" "next_priority ?s = next_priority s"
      "load_path ?s = load_path s"
      by (simp_all add: u_flush_tools_def set_data_def update_conv')
    ultimately show ?thesis by blast
  qed
  from a1 a2 d1 d2 d3 show ?thesis by blast
qed

theorem alias_tool_dealias_tool_idempotent_witness:
  "map_of (contexts suite_two) ''maya'' = Some entry_maya \<and>
   tool_aliases entry_maya ''maya'' = None \<and>
   dealias_tool ''maya'' ''maya'' suite_two = (Inr (), suite_two) \<and>
   (\<exists>s'. alias_tool ''maya'' ''maya'' ''m'' suite_two = (Inr (), s') \<and> s' \<noteq> suite_two \<and>
      map_of (contexts s') ''maya''
        = Some (entry_maya\<lparr>tool_aliases := (tool_aliases entry_maya)(''maya'' \<mapsto> ''m'')\<rparr>) \<and>
      tools s' = None \<and>
      alias_tool ''maya'' ''maya'' ''x'' s' = (Inr (), s') \<and>
      (\<exists>s''. dealias_tool ''maya'' ''maya'' s' = (Inr (), s'') \<and> s'' \<noteq> s' \<and>
         map_option (\<lambda>d. tool_aliases d ''maya'') (map_of (contexts s'') ''maya'') = Some None))"
proof -
  have e: "map_of (contexts suite_two) ''maya'' = Some entry_maya"
    by (simp add: suite_two_def entry_maya_def eval_defs)
  have n: "tool_aliases entry_maya ''maya'' = None"
    by (simp add: entry_maya_def)
  note t = alias_tool_dealias_tool_idempotent [OF e, of "''maya''"]
  from t n have d: "dealias_tool ''maya'' ''maya'' suite_two = (Inr (), suite_two)"
    by blast
  from t [of "''m''"] n obtain s' where
    s': "alias_tool ''maya'' ''maya'' ''m'' suite_two = (Inr (), s')" "s' \<noteq> suite_two"
      "map_of (contexts s') ''maya''
        = Some (entry_maya\<lparr>tool_aliases := (tool_aliases entry_maya)(''maya'' \<mapsto> ''m'')\<rparr>)"
      "tools s' = None"
    by blast
  let ?d = "entry_maya\<lparr>tool_aliases := (tool_aliases entry_maya)(''maya'' \<mapsto> ''m'')\<rparr>"
  have al: "tool_aliases ?d ''maya'' \<noteq> None" by simp
  note t' = alias_tool_dealias_tool_idempotent [OF s'(3), of "''maya''"]
  from t' [of "''x''"] al have again: "alias_tool ''maya'' ''maya'' ''x'' s' = (Inr (), s')"
    by blast
  from t' al obtain s'' where
    "dealias_tool ''maya'' ''maya'' s' = (Inr (), s'')" "s'' \<noteq> s'"
    "map_of (contexts s'') ''maya'' = Some (?d\<lparr>tool_aliases := (tool_aliases ?d)(''maya'' := None)\<rparr>)"
    by blast
  then have "\<exists>s''. dealias_tool ''maya'' ''maya'' s' = (Inr (), s'') \<and> s'' \<noteq> s' \<and>
         map_option (\<lambda>d. tool_aliases d ''maya'') (map_of (contexts s'') ''maya'') = Some None"
    by auto
  with e n d s' again show ?thesis by blast
qed

text \<open>
  The claim as stated fails for a tool that has another alias. In \<open>suite_alias_clash\<close>
  the tool \<open>nuke\<close> of context \<open>b\<close> has the alias \<open>maya\<close>. Asking for the alias \<open>nk\<close>
  changes nothing: the mapping is not in the requested state, yet the suite is unchanged
  and the old alias stays.
\<close>

theorem alias_tool_keeps_existing_alias:
  "map_option (\<lambda>d. tool_aliases d ''nuke'') (map_of (contexts suite_alias_clash) ''b'')
     = Some (Some ''maya'') \<and>
   ''maya'' \<noteq> ''nk'' \<and>
   alias_tool ''b'' ''nuke'' ''nk'' suite_alias_clash = (Inr (), suite_alias_clash)"
  by (simp add: suite_alias_clash_def eval_defs)

section \<open>Saving and loading a suite\<close>




section \<open>The priority counter\<close>

text \<open>
  C5. In a suite whose stored priorities are all below its counter (a new suite and
  every suite returned by \<open>from_dict\<close> or \<open>load\<close> are such), the priorities assigned by a
  sequence of operations are strictly increasing in the order of assignment, each is
  greater than every priority stored before the sequence and below the final counter,
  the stored priorities stay below the counter, and stored priorities that were distinct
  stay distinct. \<open>add_context\<close>, \<open>set_context_prefix\<close>, \<open>set_context_suffix\<close> and
  \<open>bump_context\<close> assign the value of the counter when they return. A suite read by
  \<open>from_dict\<close> or \<open>load\<close> has as counter one more than the largest stored priority.
\<close>

theorem priorities_unique_and_increasing:
  assumes "clock_above s"
  shows "sorted_wrt (<) (assigned_priorities ops s) \<and>
         (\<forall>p \<in> set (assigned_priorities ops s).
            (\<forall>(k, d) \<in> set (contexts s). priority d < p) \<and> p < next_priority (run ops s)) \<and>
         clock_above (run ops s) \<and>
         (distinct_priorities s \<longrightarrow> distinct_priorities (run ops s)) \<and>
         (map_of (contexts s) n = None \<and> success c \<longrightarrow>
            assigned_priority (Add_context n c descr) s = Some (next_priority s)) \<and>
         (map_of (contexts s) n \<noteq> None \<longrightarrow>
            assigned_priority (Set_context_prefix n x) s = Some (next_priority s) \<and>
            assigned_priority (Set_context_suffix n x) s = Some (next_priority s) \<and>
            assigned_priority (Bump_context n) s = Some (next_priority s)) \<and>
         clock_above Suite_init \<and> distinct_priorities Suite_init \<and>
         (\<forall>dict s'. from_dict dict = Inr s' \<longrightarrow>
            next_priority s' = Max (set (map (\<lambda>(k, x). priority x) dict)) + 1 \<and> clock_above s') \<and>
         (\<forall>path fs s'. load path fs = Inr s' \<longrightarrow>
            next_priority s' = Max (set (map (\<lambda>(k, x). priority x) (contexts s'))) + 1 \<and>
            clock_above s')"
proof -
  from assigned_priorities_increasing [OF assms, of ops] have
    tr: "sorted_wrt (<) (assigned_priorities ops s)"
      "\<forall>p \<in> set (assigned_priorities ops s). next_priority s \<le> p \<and> p < next_priority (run ops s)"
    by simp_all
  have stored: "\<forall>(k, d) \<in> set (contexts s). priority d < next_priority s"
    using assms by (simp add: clock_above_def list_all_iff)
  have a: "\<forall>p \<in> set (assigned_priorities ops s).
            (\<forall>(k, d) \<in> set (contexts s). priority d < p) \<and> p < next_priority (run ops s)"
    using tr(2) stored by fastforce
  have add: "map_of (contexts s) n = None \<and> success c \<longrightarrow>
            assigned_priority (Add_context n c descr) s = Some (next_priority s)"
    by (simp add: add_context_def u_next_priority_def u_flush_tools_def set_data_def update_conv')
  have chg: "map_of (contexts s) n \<noteq> None \<longrightarrow>
            assigned_priority (Set_context_prefix n x) s = Some (next_priority s) \<and>
            assigned_priority (Set_context_suffix n x) s = Some (next_priority s) \<and>
            assigned_priority (Bump_context n) s = Some (next_priority s)"
    by (auto simp add: set_context_prefix_def set_context_suffix_def bump_context_def
        u_context_def u_next_priority_def u_flush_tools_def set_data_def update_conv')
  have init: "clock_above Suite_init" "distinct_priorities Suite_init"
    by (simp_all add: Suite_init_def clock_above_def distinct_priorities_def)
  have fd: "\<forall>dict s'. from_dict dict = Inr s' \<longrightarrow>
            next_priority s' = Max (set (map (\<lambda>(k, x). priority x) dict)) + 1 \<and> clock_above s'"
    using from_dict_clock(3,4) by blast
  have ld: "next_priority s' = Max (set (map (\<lambda>(k, x). priority x) (contexts s'))) + 1 \<and>
            clock_above s'" if "load path fs = Inr s'" for path fs s'
  proof -
    from load_from_dict [OF that] obtain dict s0 where
      d: "from_dict dict = Inr s0" "s' = s0\<lparr>load_path := Some path\<rparr>"
      by blast
    from from_dict_clock(1,3,4) [OF d(1)] d(2) show ?thesis
      by (simp add: clock_above_def)
  qed
  from tr(1) a run_clock(1) [OF assms] run_distinct_priorities [OF assms] add chg init fd ld
  show ?thesis by blast
qed

theorem priorities_unique_and_increasing_witness:
  "clock_above Suite_init \<and>
   assigned_priorities ops_priorities Suite_init = [1, 2, 3, 4, 5] \<and>
   sorted_wrt (<) (assigned_priorities ops_priorities Suite_init) \<and>
   next_priority (run ops_priorities Suite_init) = 6 \<and>
   clock_above (run ops_priorities Suite_init) \<and>
   distinct_priorities (run ops_priorities Suite_init) \<and>
   map_of (contexts (run ops_priorities Suite_init)) ''maya'' \<noteq> None \<and>
   assigned_priority (Bump_context ''maya'') (run ops_priorities Suite_init) = Some 6 \<and>
   (case from_dict (to_dict (run ops_priorities Suite_init)) of
      Inl e \<Rightarrow> False | Inr s' \<Rightarrow> next_priority s' = 6 \<and> clock_above s')"
proof -
  have c0: "clock_above Suite_init"
    by (simp add: Suite_init_def clock_above_def)
  have d0: "distinct_priorities Suite_init"
    by (simp add: Suite_init_def distinct_priorities_def)
  have tr: "assigned_priorities ops_priorities Suite_init = [1, 2, 3, 4, 5]"
    by (simp add: ops_priorities_def eval_defs update_conv')
  have np: "next_priority (run ops_priorities Suite_init) = 6"
    and m: "map_of (contexts (run ops_priorities Suite_init)) ''maya'' \<noteq> None"
    by (simp_all add: ops_priorities_def eval_defs)
  obtain s' where fd: "from_dict (to_dict (run ops_priorities Suite_init)) = Inr s'"
    by (cases "from_dict (to_dict (run ops_priorities Suite_init))")
      (simp_all add: from_dict_def to_dict_def ops_priorities_def eval_defs)
  have mx: "Max (set (map (\<lambda>(k, x). priority x) (to_dict (run ops_priorities Suite_init)))) = 5"
    by (simp add: to_dict_def ops_priorities_def eval_defs)
  note t = priorities_unique_and_increasing [OF c0, of ops_priorities "''maya''"]
  from t have "sorted_wrt (<) (assigned_priorities ops_priorities Suite_init)"
    and "clock_above (run ops_priorities Suite_init)"
    and "distinct_priorities (run ops_priorities Suite_init)"
    using d0 by blast+
  moreover from priorities_unique_and_increasing [OF this(2), of "[]" "''maya''"] m np
  have "assigned_priority (Bump_context ''maya'') (run ops_priorities Suite_init) = Some 6"
    by simp
  moreover from t fd mx have "next_priority s' = 6 \<and> clock_above s'"
    by force
  ultimately show ?thesis
    using c0 tr np m fd by simp
qed

section \<open>Order of the conflict lists\<close>




section \<open>Hidden tools and removed contexts\<close>

text \<open>
  C7. After any sequence of operations on a suite that started with distinct keys, each
  entry under its own name and no cached tables, every tool in the table returned by
  \<open>get_tools\<close>, and every tool in a conflict list, is stored under its alias, belongs to
  a context that is in the suite and is not in that context's hidden tools.
\<close>

theorem resolve_excludes_hidden_and_removed:
  assumes "wf_suite s0" and "tools s0 = None" and "tool_conflicts s0 = None"
    and "get_tools fs (run ops s0) = (Inr (Some T), s')"
  shows "(\<forall>a e. map_of T a = Some e \<longrightarrow>
            tool_alias e = a \<and>
            (\<exists>d. map_of (contexts s') (context_name e) = Some d \<and> tool_name e \<notin> hidden_tools d)) \<and>
         (\<exists>C. tool_conflicts s' = Some C \<and>
            (\<forall>a l e. map_of C a = Some l \<and> e \<in> set l \<longrightarrow>
               tool_alias e = a \<and>
               (\<exists>d. map_of (contexts s') (context_name e) = Some d \<and>
                    tool_name e \<notin> hidden_tools d)))"
proof -
  have inv: "wf_suite (run ops s0)" "memo_ok (run ops s0)"
    using run_inv [OF assms(1) memo_ok_flushed [OF assms(2,3)], of ops] by simp_all
  from get_tools_memo [OF inv assms(4)] obtain C es where
    m: "tool_conflicts s' = Some C" "represents es (T, C)" "good_cands s' es"
    by blast
  have ok: "\<exists>d. map_of (contexts s') (context_name e) = Some d \<and> tool_name e \<notin> hidden_tools d"
    if "e \<in> set es" for e
    using m(3) that by (simp add: good_cands_def)
  have "tool_alias e = a \<and>
        (\<exists>d. map_of (contexts s') (context_name e) = Some d \<and> tool_name e \<notin> hidden_tools d)"
    if "map_of T a = Some e" for a e
  proof -
    from represents_winner [OF m(2) that] obtain l where
      f: "filter (\<lambda>e. tool_alias e = a) es = e # l"
      by blast
    from filter_member [OF f] have "e \<in> set es" "tool_alias e = a" by auto
    with ok show ?thesis by simp
  qed
  moreover have "tool_alias e = a \<and>
        (\<exists>d. map_of (contexts s') (context_name e) = Some d \<and> tool_name e \<notin> hidden_tools d)"
    if "map_of C a = Some l" "e \<in> set l" for a l e
  proof -
    from represents_losers [OF m(2) that(1)] obtain w where
      f: "filter (\<lambda>e. tool_alias e = a) es = w # l"
      by blast
    from filter_member [OF f] that(2) have "e \<in> set es" "tool_alias e = a" by auto
    with ok show ?thesis by simp
  qed
  ultimately show ?thesis
    using m(1) by blast
qed

theorem resolve_excludes_hidden_and_removed_witness:
  "wf_suite Suite_init \<and> tools Suite_init = None \<and> tool_conflicts Suite_init = None \<and>
   get_tools [] (run ops_hide_remove Suite_init)
     = (Inr (Some [(''nuke'', tool_of ''nuke'' ''nuke'' ''nuke'' ''nuke-9'')]),
        snd (get_tools [] (run ops_hide_remove Suite_init))) \<and>
   (\<exists>d. map_of (contexts (snd (get_tools [] (run ops_hide_remove Suite_init)))) ''nuke'' = Some d \<and>
        ''nuke'' \<notin> hidden_tools d \<and> ''maya'' \<in> hidden_tools d) \<and>
   map_of (contexts (snd (get_tools [] (run ops_hide_remove Suite_init)))) ''maya'' = None \<and>
   tool_conflicts (snd (get_tools [] (run ops_hide_remove Suite_init))) = Some []"
proof -
  let ?s = "snd (get_tools [] (run ops_hide_remove Suite_init))"
  let ?T = "[(''nuke'', tool_of ''nuke'' ''nuke'' ''nuke'' ''nuke-9'')]"
  have g: "get_tools [] (run ops_hide_remove Suite_init) = (Inr (Some ?T), ?s)"
    by (simp add: prod_eq_iff ops_hide_remove_def eval_defs)
  have h: "\<exists>d. map_of (contexts ?s) ''nuke'' = Some d \<and> ''maya'' \<in> hidden_tools d"
    and m: "map_of (contexts ?s) ''maya'' = None"
    and C: "tool_conflicts ?s = Some []"
    by (simp_all add: ops_hide_remove_def eval_defs)
  from resolve_excludes_hidden_and_removed [OF Suite_init_fresh g]
  have "\<forall>a e. map_of ?T a = Some e \<longrightarrow>
          tool_alias e = a \<and>
          (\<exists>d. map_of (contexts ?s) (context_name e) = Some d \<and> tool_name e \<notin> hidden_tools d)"
    by blast
  then have "\<exists>d. map_of (contexts ?s) (context_name (tool_of ''nuke'' ''nuke'' ''nuke'' ''nuke-9''))
                    = Some d \<and>
                 tool_name (tool_of ''nuke'' ''nuke'' ''nuke'' ''nuke-9'') \<notin> hidden_tools d"
    by simp
  then have "\<exists>d. map_of (contexts ?s) ''nuke'' = Some d \<and> ''nuke'' \<notin> hidden_tools d"
    by (simp add: tool_of_def)
  with h have "\<exists>d. map_of (contexts ?s) ''nuke'' = Some d \<and> ''nuke'' \<notin> hidden_tools d \<and>
                  ''maya'' \<in> hidden_tools d"
    by auto
  with Suite_init_fresh g m C show ?thesis by blast
qed

section \<open>Adding a context\<close>

text \<open>
  C8. \<open>add_context\<close> raises ``Context already in suite'' when the name is present and
  ``Context is not resolved'' when the context's \<open>success\<close> flag is false; in both cases
  the suite is returned exactly as it was. Otherwise the name is bound to a new entry
  that holds the context, the priority the counter had, no aliases, no hidden tools, no
  prefix and no suffix; the counter is advanced and the cached tables are dropped.
\<close>

theorem add_context_all_or_nothing:
  "(map_of (contexts s) n \<noteq> None \<longrightarrow>
      add_context n c descr s = (Inl (SuiteError ''Context already in suite: %r'' n), s)) \<and>
   (map_of (contexts s) n = None \<and> \<not> success c \<longrightarrow>
      add_context n c descr s = (Inl (SuiteError ''Context is not resolved: %r'' n), s)) \<and>
   (map_of (contexts s) n = None \<and> success c \<longrightarrow>
      (\<exists>s'. add_context n c descr s = (Inr (), s') \<and>
         map_of (contexts s') n =
           Some \<lparr>name = n, context = Some c, tool_aliases = Map.empty, hidden_tools = {},
                 description = descr, priority = next_priority s,
                 prefix = None, suffix = None\<rparr> \<and>
         (\<forall>m. m \<noteq> n \<longrightarrow> map_of (contexts s') m = map_of (contexts s) m) \<and>
         next_priority s' = next_priority s + 1 \<and>
         load_path s' = load_path s \<and>
         tools s' = None \<and> tool_conflicts s' = None))"
  by (simp add: add_context_def u_next_priority_def u_flush_tools_def set_data_def
      update_conv')

definition ctx_ok :: resolved_context where
  "ctx_ok = \<lparr>success = True, context_tools = [(''pkg-1'', [''t''])]\<rparr>"

definition ctx_failed :: resolved_context where
  "ctx_failed = \<lparr>success = False, context_tools = []\<rparr>"

theorem add_context_all_or_nothing_witness:
  "fst (add_context ''a'' ctx_ok None Suite_init) = Inr () \<and>
   map_option priority (map_of (contexts (snd (add_context ''a'' ctx_ok None Suite_init))) ''a'')
     = Some 1 \<and>
   add_context ''a'' ctx_failed None Suite_init
     = (Inl (SuiteError ''Context is not resolved: %r'' ''a''), Suite_init) \<and>
   add_context ''a'' ctx_ok None (snd (add_context ''a'' ctx_ok None Suite_init))
     = (Inl (SuiteError ''Context already in suite: %r'' ''a''),
        snd (add_context ''a'' ctx_ok None Suite_init))"
proof -
  have e: "map_of (contexts Suite_init) ''a'' = None"
    by (simp add: Suite_init_def)
  have ok: "success ctx_ok" and bad: "\<not> success ctx_failed"
    by (simp_all add: ctx_ok_def ctx_failed_def)
  from add_context_all_or_nothing [of Suite_init "''a''" ctx_ok None] e ok
  obtain s' where s': "add_context ''a'' ctx_ok None Suite_init = (Inr (), s')"
    and m: "map_of (contexts s') ''a'' =
           Some \<lparr>name = ''a'', context = Some ctx_ok, tool_aliases = Map.empty,
                 hidden_tools = {}, description = None, priority = next_priority Suite_init,
                 prefix = None, suffix = None\<rparr>"
    by blast
  have dup: "map_of (contexts s') ''a'' \<noteq> None"
    using m by simp
  have "add_context ''a'' ctx_ok None s'
          = (Inl (SuiteError ''Context already in suite: %r'' ''a''), s')"
    using add_context_all_or_nothing [of s' "''a''" ctx_ok None] dup by blast
  moreover have "add_context ''a'' ctx_failed None Suite_init
          = (Inl (SuiteError ''Context is not resolved: %r'' ''a''), Suite_init)"
    using add_context_all_or_nothing [of Suite_init "''a''" ctx_failed None] e bad by blast
  ultimately show ?thesis
    using s' m by (simp add: Suite_init_def)
qed

section \<open>The command run by the alias script\<close>

text \<open>
  C9. Whenever the parser returns options and unconsumed arguments, \<open>Alias.run\<close> makes
  one call to \<open>execute_shell\<close>: with the command given by \<open>++command\<close> when there is one,
  whatever the tool name, the other arguments and the interactive flag are; otherwise
  with no command and the prompt set when the interactive flag is given; otherwise with
  the tool name followed by the unconsumed arguments.
\<close>

theorem command_precedence:
  assumes "parse (self_tool_name self) (tl (argv ps)) = Inr (o1, tool_args)"
  shows "\<exists>code call prompt.
           Alias_run parse exec ps self = Inr (code, call, prompt) \<and>
           code = exec (self_context self) call \<and>
           (command o1 \<noteq> None \<and> command o1 \<noteq> Some [] \<longrightarrow>
              sh_command call = command o1 \<and> prompt = None) \<and>
           ((command o1 = None \<or> command o1 = Some []) \<and> interactive o1 \<longrightarrow>
              sh_command call = None \<and> prompt = Some (self_context_name self @ ''>'')) \<and>
           ((command o1 = None \<or> command o1 = Some []) \<and> \<not> interactive o1 \<longrightarrow>
              sh_command call = Some (self_tool_name self # tool_args) \<and> prompt = None) \<and>
           sh_stdin call = (stdin o1 \<and> stdin_ready ps) \<and>
           sh_rcfile call = rcfile o1 \<and> sh_norc call = norc o1 \<and> sh_block call"
  using assms by (auto simp add: Alias_run_def Let_def)

theorem command_precedence_witness:
  "parse_known_args ''maya'' (tl [''/s/bin/maya'', ''-v'', ''++command'', ''echo'', ''hi''])
     = Inr (\<lparr>interactive = False, command = Some [''echo'', ''hi''], rcfile = None,
             norc = False, stdin = False\<rparr>, [''-v'']) \<and>
   (\<exists>code call.
      Alias_run parse_known_args no_shell
        \<lparr>argv = [''/s/bin/maya'', ''-v'', ''++command'', ''echo'', ''hi''], stdin_ready = False\<rparr>
        alias_maya = Inr (code, call, None) \<and>
      sh_command call = Some [''echo'', ''hi'']) \<and>
   parse_known_args ''maya'' (tl [''/s/bin/maya'', ''+i'', ''x''])
     = Inr (\<lparr>interactive = True, command = None, rcfile = None,
             norc = False, stdin = False\<rparr>, [''x'']) \<and>
   (\<exists>code call.
      Alias_run parse_known_args no_shell
        \<lparr>argv = [''/s/bin/maya'', ''+i'', ''x''], stdin_ready = False\<rparr>
        alias_maya = Inr (code, call, Some ''nuke>'') \<and>
      sh_command call = None) \<and>
   parse_known_args ''maya'' (tl [''/s/bin/maya'', ''-v'', ''x''])
     = Inr (\<lparr>interactive = False, command = None, rcfile = None,
             norc = False, stdin = False\<rparr>, [''-v'', ''x'']) \<and>
   (\<exists>code call.
      Alias_run parse_known_args no_shell
        \<lparr>argv = [''/s/bin/maya'', ''-v'', ''x''], stdin_ready = False\<rparr>
        alias_maya = Inr (code, call, None) \<and>
      sh_command call = Some [''maya'', ''-v'', ''x''])"
proof -
  let ?o1 = "\<lparr>interactive = False, command = Some [''echo'', ''hi''], rcfile = None,
             norc = False, stdin = False\<rparr>"
  let ?o2 = "\<lparr>interactive = True, command = None, rcfile = None, norc = False, stdin = False\<rparr>"
  let ?o3 = "\<lparr>interactive = False, command = None, rcfile = None, norc = False, stdin = False\<rparr>"
  have p1: "parse_known_args ''maya'' (tl [''/s/bin/maya'', ''-v'', ''++command'', ''echo'', ''hi''])
              = Inr (?o1, [''-v''])"
    and p2: "parse_known_args ''maya'' (tl [''/s/bin/maya'', ''+i'', ''x'']) = Inr (?o2, [''x''])"
    and p3: "parse_known_args ''maya'' (tl [''/s/bin/maya'', ''-v'', ''x'']) = Inr (?o3, [''-v'', ''x''])"
    by (simp_all add: parse_known_args_def is_option_def)
  have n: "self_tool_name alias_maya = ''maya''" "self_context_name alias_maya = ''nuke''"
    by (simp_all add: alias_maya_def)
  from command_precedence [of parse_known_args alias_maya
      "\<lparr>argv = [''/s/bin/maya'', ''-v'', ''++command'', ''echo'', ''hi''], stdin_ready = False\<rparr>"
      ?o1 "[''-v'']" no_shell] p1 n
  have r1: "\<exists>code call.
      Alias_run parse_known_args no_shell
        \<lparr>argv = [''/s/bin/maya'', ''-v'', ''++command'', ''echo'', ''hi''], stdin_ready = False\<rparr>
        alias_maya = Inr (code, call, None) \<and>
      sh_command call = Some [''echo'', ''hi'']"
    by auto
  from command_precedence [of parse_known_args alias_maya
      "\<lparr>argv = [''/s/bin/maya'', ''+i'', ''x''], stdin_ready = False\<rparr>"
      ?o2 "[''x'']" no_shell] p2 n
  have r2: "\<exists>code call.
      Alias_run parse_known_args no_shell
        \<lparr>argv = [''/s/bin/maya'', ''+i'', ''x''], stdin_ready = False\<rparr>
        alias_maya = Inr (code, call, Some ''nuke>'') \<and>
      sh_command call = None"
    by auto
  from command_precedence [of parse_known_args alias_maya
      "\<lparr>argv = [''/s/bin/maya'', ''-v'', ''x''], stdin_ready = False\<rparr>"
      ?o3 "[''-v'', ''x'']" no_shell] p3 n
  have r3: "\<exists>code call.
      Alias_run parse_known_args no_shell
        \<lparr>argv = [''/s/bin/maya'', ''-v'', ''x''], stdin_ready = False\<rparr>
        alias_maya = Inr (code, call, None) \<and>
      sh_command call = Some [''maya'', ''-v'', ''x'']"
    by auto
  from p1 p2 p3 r1 r2 r3 show ?thesis by blast
qed

section \<open>Lazy loading of a context\<close>

text \<open>
  C10. \<open>Suite.context\<close> returns the context held by the entry and leaves the suite as it
  is. When the entry holds none, the context is read from
  \<open>contexts/<name>.rxt\<close> below the load path, stored in the entry and returned; every
  later access returns the stored context and reads no file. A failed read raises and
  changes nothing, a missing load path fails the assertion, an unknown name raises
  \<open>SuiteError\<close>. A suite built from a new one by any sequence of operations has a
  context in every entry, so the file is read only for suites that come from a file.
\<close>

theorem context_lazy_materialization:
  "(\<forall>d c. map_of (contexts s) n = Some d \<and> context d = Some c \<longrightarrow>
       suite_context fs n s = (Inr c, s)) \<and>
   (\<forall>d lp c. map_of (contexts s) n = Some d \<and> context d = None \<and>
        load_path s = Some lp \<and> lp \<noteq> [] \<and>
        ResolvedContext_load fs (path_join (path_join lp ''contexts'') (n @ ''.rxt'')) = Inr c \<longrightarrow>
       (\<exists>s'. suite_context fs n s = (Inr c, s') \<and>
          map_of (contexts s') n = Some (d\<lparr>context := Some c\<rparr>) \<and>
          (\<forall>m. m \<noteq> n \<longrightarrow> map_of (contexts s') m = map_of (contexts s) m) \<and>
          load_path s' = load_path s \<and> next_priority s' = next_priority s \<and>
          tools s' = tools s \<and> tool_conflicts s' = tool_conflicts s \<and>
          (\<forall>fs'. suite_context fs' n s' = (Inr c, s')))) \<and>
   (\<forall>d lp e. map_of (contexts s) n = Some d \<and> context d = None \<and>
        load_path s = Some lp \<and> lp \<noteq> [] \<and>
        ResolvedContext_load fs (path_join (path_join lp ''contexts'') (n @ ''.rxt'')) = Inl e \<longrightarrow>
       suite_context fs n s = (Inl e, s)) \<and>
   (\<forall>d. map_of (contexts s) n = Some d \<and> context d = None \<and>
        (load_path s = None \<or> load_path s = Some []) \<longrightarrow>
       suite_context fs n s = (Inl AssertionError, s)) \<and>
   (map_of (contexts s) n = None \<longrightarrow>
       suite_context fs n s = (Inl (SuiteError ''No such context: %r'' n), s)) \<and>
   (\<forall>ops. all_live (run ops Suite_init))"
proof -
  have "all_live Suite_init"
    by (simp add: all_live_def Suite_init_def)
  then have "\<forall>ops. all_live (run ops Suite_init)"
    using run_all_live by blast
  then show ?thesis
    by (auto simp add: suite_context_def u_context_def set_data_def update_conv')
qed

theorem context_lazy_materialization_witness:
  "map_of (contexts suite_two) ''maya'' = Some entry_maya \<and>
   context entry_maya = Some ctx_maya \<and>
   suite_context [] ''maya'' suite_two = (Inr ctx_maya, suite_two) \<and>
   map_of (contexts suite_loaded) ''maya'' = Some (entry_maya\<lparr>context := None\<rparr>) \<and>
   load_path suite_loaded = Some ''/s'' \<and>
   ResolvedContext_load fs_saved (path_join (path_join ''/s'' ''contexts'') (''maya'' @ ''.rxt''))
     = Inr ctx_maya \<and>
   (\<exists>s'. suite_context fs_saved ''maya'' suite_loaded = (Inr ctx_maya, s') \<and>
      map_of (contexts s') ''maya'' = Some entry_maya \<and>
      suite_context [] ''maya'' s' = (Inr ctx_maya, s')) \<and>
   ResolvedContext_load [] (path_join (path_join ''/s'' ''contexts'') (''maya'' @ ''.rxt''))
     = Inl (IOError ''/s/contexts/maya.rxt'') \<and>
   suite_context [] ''maya'' suite_loaded = (Inl (IOError ''/s/contexts/maya.rxt''), suite_loaded) \<and>
   suite_context [] ''maya'' (suite_loaded\<lparr>load_path := None\<rparr>)
     = (Inl AssertionError, suite_loaded\<lparr>load_path := None\<rparr>) \<and>
   suite_context [] ''houdini'' suite_two
     = (Inl (SuiteError ''No such context: %r'' ''houdini''), suite_two) \<and>
   all_live suite_two"
proof -
  have e: "map_of (contexts suite_two) ''maya'' = Some entry_maya"
    and c: "context entry_maya = Some ctx_maya"
    by (simp_all add: suite_two_def entry_maya_def eval_defs)
  have l: "map_of (contexts suite_loaded) ''maya'' = Some (entry_maya\<lparr>context := None\<rparr>)"
    and lp: "load_path suite_loaded = Some ''/s''"
    by (simp_all add: suite_loaded_def fs_saved_eval suite_two_def entry_maya_def fs_defs eval_defs)
  have lc: "context (entry_maya\<lparr>context := None\<rparr>) = None" by simp
  have f: "ResolvedContext_load fs_saved (path_join (path_join ''/s'' ''contexts'') (''maya'' @ ''.rxt''))
             = Inr ctx_maya"
    by (simp add: fs_saved_eval fs_defs)
  have g: "ResolvedContext_load [] (path_join (path_join ''/s'' ''contexts'') (''maya'' @ ''.rxt''))
             = Inl (IOError ''/s/contexts/maya.rxt'')"
    by (simp add: fs_defs)
  have h: "map_of (contexts suite_two) ''houdini'' = None"
    by (simp add: suite_two_def eval_defs)
  have ne: "''/s'' \<noteq> ([] :: string)" by simp
  from context_lazy_materialization [of suite_two "''maya''" "[]"] e c
  have live: "suite_context [] ''maya'' suite_two = (Inr ctx_maya, suite_two)"
    by blast
  from context_lazy_materialization [of suite_loaded "''maya''" fs_saved] l lc lp ne f
  obtain s' where s': "suite_context fs_saved ''maya'' suite_loaded = (Inr ctx_maya, s')"
    "map_of (contexts s') ''maya'' = Some (entry_maya\<lparr>context := None, context := Some ctx_maya\<rparr>)"
    "\<forall>fs'. suite_context fs' ''maya'' s' = (Inr ctx_maya, s')"
    by blast
  have "entry_maya\<lparr>context := None, context := Some ctx_maya\<rparr> = entry_maya"
    by (simp add: entry_maya_def)
  with s' have lazy: "\<exists>s'. suite_context fs_saved ''maya'' suite_loaded = (Inr ctx_maya, s') \<and>
      map_of (contexts s') ''maya'' = Some entry_maya \<and>
      suite_context [] ''maya'' s' = (Inr ctx_maya, s')"
    by auto
  from context_lazy_materialization [of suite_loaded "''maya''" "[]"] l lc lp ne g
  have io: "suite_context [] ''maya'' suite_loaded
              = (Inl (IOError ''/s/contexts/maya.rxt''), suite_loaded)"
    by blast
  have "map_of (contexts (suite_loaded\<lparr>load_path := None\<rparr>)) ''maya''
          = Some (entry_maya\<lparr>context := None\<rparr>)"
    "load_path (suite_loaded\<lparr>load_path := None\<rparr>) = None"
    using l by simp_all
  with context_lazy_materialization [of "suite_loaded\<lparr>load_path := None\<rparr>" "''maya''" "[]"] lc
  have as: "suite_context [] ''maya'' (suite_loaded\<lparr>load_path := None\<rparr>)
              = (Inl AssertionError, suite_loaded\<lparr>load_path := None\<rparr>)"
    by blast
  from context_lazy_materialization [of suite_two "''houdini''" "[]"] h
  have no: "suite_context [] ''houdini'' suite_two
              = (Inl (SuiteError ''No such context: %r'' ''houdini''), suite_two)"
    by blast
  from context_lazy_materialization [of suite_two "''maya''" "[]"]
  have al: "all_live suite_two"
    unfolding suite_two_def by blast
  from e c live l lp f lazy g io as no al show ?thesis by blast
qed

end
